theory Spec2Isabelle
  imports Main "HOL-Library.Word"
begin

section \<open>Tile-cooperative helpers of AMP\_helpers.hpp\<close>

text \<open>
  The header holds the per-tile primitives of a C++ AMP sort: \<open>reduce\<close>,
  \<open>serial_scan\<close>, \<open>serial_accumulate\<close>, \<open>padded_cols\<close>, the two-level \<open>scan\<close>
  (\<open>reduce_rows\<close>, \<open>scan_sums\<close>, \<open>scan_rows\<close>), the block spin lock and \<open>partition\<close>.

  Conventions of the embedding.
  \<^item> An array is a function from cell numbers to values, \<open>nat \<Rightarrow> 'a\<close>. The source works
    on raw pointers and unchecked \<open>array_view\<close> indices inside \<open>restrict(amp)\<close> code:
    nothing traps an access that leaves a range, it reads or overwrites the neighbouring
    cell. The model keeps exactly that: a write to any cell number lands in that cell.
  \<^item> An iterator into an array is the cell number it points to; a range is a pair
    \<open>f\<close>, \<open>l\<close> of them. Ranges live in tile-static or global memory of a few thousand
    cells, so iterator arithmetic is done in \<open>nat\<close>.
  \<^item> \<open>unsigned int\<close> is \<open>32 word\<close>: \<open>padded_cols\<close>, the flag arrays, the lock table
    and the two cursors of \<open>partition\<close> wrap as the machine does.
  \<^item> A tile of \<open>tile_dim0\<close> lanes runs a barrier-delimited phase lane after lane, in
    lane order. Within each such phase of the source the lanes touch pairwise disjoint
    cells, so the order between lanes does not show in the result.
\<close>

type_synonym u32 = "32 word"
type_synonym 'a array = "nat \<Rightarrow> 'a"

text \<open>The cells \<open>f, f + 1, ..., l - 1\<close> of an array, read out as a list.\<close>

definition cells :: "'a array \<Rightarrow> nat \<Rightarrow> nat \<Rightarrow> 'a list" where
  "cells a f l = map a [f..<l]"

text \<open>An array whose first cells hold the given list; the cells after it hold \<open>d\<close>.\<close>

definition array_of :: "'a \<Rightarrow> 'a list \<Rightarrow> 'a array" where
  "array_of d xs = (\<lambda>i. if i < length xs then xs ! i else d)"

subsection \<open>padded\_cols (lines 315-318)\<close>

text \<open>
  \<^verbatim>\<open>return (((length / rows) % 2u) ? (length / rows) : (length / rows) + 1u);\<close>
\<close>

definition padded_cols :: "u32 \<Rightarrow> u32 \<Rightarrow> u32" where
  "padded_cols len rows =
     (if (len div rows) mod 2 \<noteq> 0 then len div rows else len div rows + 1)"

subsection \<open>serial\_scan and serial\_accumulate (lines 243-306)\<close>

text \<open>
  The loop \<^verbatim>\<open>while (f != l) { auto tmp = *f; *f++ = res; res += tmp; }\<close>. It is entered
  only behind the guard \<^verbatim>\<open>if (f >= l) return (l);\<close>, so \<open>f \<le> l\<close> holds throughout and
  the test \<open>f != l\<close> is the test \<open>f < l\<close>, which is the form that makes the recursion
  well-founded.
\<close>

function serial_scan_loop :: "nat \<Rightarrow> nat \<Rightarrow> 'a::plus \<Rightarrow> 'a array \<Rightarrow> 'a array" where
  "serial_scan_loop f l res a =
     (if f < l then serial_scan_loop (f + 1) l (res + a f) (a(f := res)) else a)"
  by pat_completeness auto
termination
  by (relation "measure (\<lambda>(f, l, res, a). l - f)") auto

declare serial_scan_loop.simps [simp del]

text \<open>
  \<open>serial_scan(f, l)\<close>: the accumulator is seeded with \<open>T()\<close>, the value \<open>0\<close>; the
  result is the iterator \<open>--l\<close> together with the array after the call.
\<close>

definition serial_scan :: "nat \<Rightarrow> nat \<Rightarrow> 'a::{zero,plus} array \<Rightarrow> nat \<times> 'a array" where
  "serial_scan f l a = (if f \<ge> l then (l, a) else (l - 1, serial_scan_loop f l 0 a))"

text \<open>
  The overload \<open>serial_scan(f, l, op)\<close> declares its accumulator without an initialiser
  (\<^verbatim>\<open>typename std::iterator_traits<I>::value_type res;\<close>): for a scalar type the local
  starts with whatever its register or stack slot holds. That content is the argument
  \<open>garbage\<close> of the model; the source has no parameter for it.
\<close>

function serial_scan_op_loop ::
  "('a \<Rightarrow> 'a \<Rightarrow> 'a) \<Rightarrow> nat \<Rightarrow> nat \<Rightarrow> 'a \<Rightarrow> 'a array \<Rightarrow> 'a array" where
  "serial_scan_op_loop op f l res a =
     (if f < l then serial_scan_op_loop op (f + 1) l (op res (a f)) (a(f := res)) else a)"
  by pat_completeness auto
termination
  by (relation "measure (\<lambda>(op, f, l, res, a). l - f)") auto

declare serial_scan_op_loop.simps [simp del]

definition serial_scan_op ::
  "'a \<Rightarrow> nat \<Rightarrow> nat \<Rightarrow> ('a \<Rightarrow> 'a \<Rightarrow> 'a) \<Rightarrow> 'a array \<Rightarrow> nat \<times> 'a array" where
  "serial_scan_op garbage f l op a =
     (if f \<ge> l then (l, a) else (l - 1, serial_scan_op_loop op f l garbage a))"

text \<open>\<open>serial_accumulate(f, l, init)\<close>: \<^verbatim>\<open>while (f != l) { init += *f++; }\<close> behind the same guard.\<close>

function serial_accumulate_loop :: "'a array \<Rightarrow> nat \<Rightarrow> nat \<Rightarrow> 'a::plus \<Rightarrow> 'a" where
  "serial_accumulate_loop a f l init =
     (if f < l then serial_accumulate_loop a (f + 1) l (init + a f) else init)"
  by pat_completeness auto
termination
  by (relation "measure (\<lambda>(a, f, l, init). l - f)") auto

declare serial_accumulate_loop.simps [simp del]

definition serial_accumulate :: "'a array \<Rightarrow> nat \<Rightarrow> nat \<Rightarrow> 'a::plus \<Rightarrow> 'a" where
  "serial_accumulate a f l init = (if f \<ge> l then init else serial_accumulate_loop a f l init)"

subsection \<open>reduce (lines 220-242)\<close>

text \<open>
  One lane's share of one round:
  \<^verbatim>\<open>for (auto i = 0u; i < m; i += tidx.tile_dim0) {
      const auto e = tidx.local[0] + i;
      if (e < m) { *(l - e - 1) += *(l - m - e - 1); } }\<close>
  \<open>D\<close> is \<open>tidx.tile_dim0\<close> and \<open>lane\<close> is \<open>tidx.local[0]\<close>. The tile extent is a template
  argument of \<open>tiled_index\<close> and at least 1; the test \<open>0 < D\<close> only makes the model total.
\<close>

function reduce_lane :: "nat \<Rightarrow> nat \<Rightarrow> nat \<Rightarrow> nat \<Rightarrow> nat \<Rightarrow> 'a::plus array \<Rightarrow> 'a array" where
  "reduce_lane m l D lane i a =
     (if i < m \<and> 0 < D then
        (let e = lane + i;
             a' = (if e < m then a(l - e - 1 := a (l - e - 1) + a (l - m - e - 1)) else a)
         in reduce_lane m l D lane (i + D) a')
      else a)"
  by pat_completeness auto
termination
  by (relation "measure (\<lambda>(m, l, D, lane, i, a). m - i)") auto

declare reduce_lane.simps [simp del]

text \<open>
  One round of the tile: every lane runs its loop, then the barrier
  \<open>wait_with_tile_static_memory_fence\<close>. A round reads the cells \<open>l - 2m .. l - m - 1\<close> and
  writes the cells \<open>l - m .. l - 1\<close>, each written cell by one lane only.
\<close>

definition reduce_round :: "nat \<Rightarrow> nat \<Rightarrow> nat \<Rightarrow> 'a::plus array \<Rightarrow> 'a array" where
  "reduce_round m l D a = fold (\<lambda>lane. reduce_lane m l D lane 0) [0..<D] a"

text \<open>\<^verbatim>\<open>while (m) { <round>; m /= 2u; }\<close>\<close>

function reduce_rounds :: "nat \<Rightarrow> nat \<Rightarrow> nat \<Rightarrow> 'a::plus array \<Rightarrow> 'a array" where
  "reduce_rounds m l D a =
     (if m \<noteq> 0 then reduce_rounds (m div 2) l D (reduce_round m l D a) else a)"
  by pat_completeness auto
termination
  by (relation "measure (\<lambda>(m, l, D, a). m)") auto

declare reduce_rounds.simps [simp del]

text \<open>
  \<open>reduce(f, l, tidx)\<close>: the guard for the empty range, \<open>m = (l - f) / 2u\<close>, the rounds,
  and the iterator \<open>--l\<close>.
\<close>

definition reduce :: "nat \<Rightarrow> nat \<Rightarrow> nat \<Rightarrow> 'a::plus array \<Rightarrow> nat \<times> 'a array" where
  "reduce f l D a = (if f \<ge> l then (l, a) else (l - 1, reduce_rounds ((l - f) div 2) l D a))"

subsection \<open>The two-level scan (lines 308-391)\<close>

text \<open>
  The scan works on two arrays at a time: the caller's range and the row sums, which
  \<open>thread_local_new<T, sz>()\<close> places in a \<open>tile_static T new_T_arr[sz]\<close>. That array is a
  static local of the function template, so there is one per \<open>sz\<close>: the row sums of
  \<open>reduce_rows<8>\<close> are the same cells wherever it is called from, and they coincide with the
  range being scanned when \<open>scan_sums\<close> is handed the row sums of \<open>reduce_rows<8>\<close>. The heap
  of a tile therefore names its arrays: those of the caller, and one \<open>Row_sums sz\<close> per
  size. Tile-static memory is not initialised.
\<close>

datatype region = Caller nat | Row_sums nat

type_synonym 'a heap = "region \<Rightarrow> 'a array"

definition thread_local_new :: "nat \<Rightarrow> region" where
  "thread_local_new sz = Row_sums sz"

text \<open>
  The column count of the \<open>rows \<times> cols\<close> view laid over a range:
  \<open>padded_cols(l - f, rows)\<close>, whose arguments are converted to \<open>unsigned int\<close>.
\<close>

definition cols :: "nat \<Rightarrow> nat \<Rightarrow> nat \<Rightarrow> nat" where
  "cols f l rows = unat (padded_cols (of_nat (l - f)) (of_nat rows))"

text \<open>
  \<open>reduce_rows<rows>(f, l, tidx)\<close> as run by one lane. Row \<open>lane\<close> of the view is the cells
  \<open>f + lane * cols .. f + (lane + 1) * cols - 1\<close>; it is clipped to \<open>l\<close> where it runs over
  the end, and \<open>serial_accumulate\<close> returns \<open>T()\<close> when it starts at or after \<open>l\<close>.
  The range lies in the array \<open>rg\<close>.
\<close>

definition reduce_rows_lane ::
  "nat \<Rightarrow> region \<Rightarrow> nat \<Rightarrow> nat \<Rightarrow> nat \<Rightarrow> 'a::{zero,plus} heap \<Rightarrow> 'a heap" where
  "reduce_rows_lane rows rg f l lane h =
     (let row_sums = thread_local_new rows in
      if lane < rows then
        (let row_begin = f + lane * cols f l rows;
             row_end = row_begin + cols f l rows;
             row_l = (if row_end \<le> l then row_end else l)
         in h(row_sums := (h row_sums)(lane := serial_accumulate (h rg) row_begin row_l 0)))
      else h)"

definition reduce_rows ::
  "nat \<Rightarrow> region \<Rightarrow> nat \<Rightarrow> nat \<Rightarrow> nat \<Rightarrow> 'a::{zero,plus} heap \<Rightarrow> 'a heap" where
  "reduce_rows rows rg f l D h = fold (reduce_rows_lane rows rg f l) [0..<D] h"

text \<open>
  The loop of \<open>scan_rows\<close>:
  \<^verbatim>\<open>while ((i != end(row)) && (i != l)) { auto tmp = *i; *i++ = res; res += tmp; }\<close>
  The first argument counts the cells left before \<open>end(row)\<close>, so \<open>i != end(row)\<close> is the
  test for \<open>Suc\<close>. The test \<open>i != l\<close> is kept as written: a row that begins after \<open>l\<close>
  never meets it and is overwritten up to its end.
\<close>

fun scan_row_loop :: "nat \<Rightarrow> nat \<Rightarrow> nat \<Rightarrow> 'a::plus \<Rightarrow> 'a array \<Rightarrow> 'a array" where
  "scan_row_loop 0 i l res a = a"
| "scan_row_loop (Suc k) i l res a =
     (if i \<noteq> l then scan_row_loop k (i + 1) l (res + a i) (a(i := res)) else a)"

text \<open>\<open>scan_rows<rows>(f, l, row_sums, tidx)\<close> as run by one lane; \<open>rs\<close> is the array of \<open>row_sums\<close>.\<close>

definition scan_rows_lane ::
  "nat \<Rightarrow> region \<Rightarrow> nat \<Rightarrow> nat \<Rightarrow> region \<Rightarrow> nat \<Rightarrow> 'a::plus heap \<Rightarrow> 'a heap" where
  "scan_rows_lane rows rg f l rs lane h =
     (if lane < rows then
        (let row_begin = f + lane * cols f l rows;
             res = h rs lane
         in h(rg := scan_row_loop (cols f l rows) row_begin l res (h rg)))
      else h)"

definition scan_rows ::
  "nat \<Rightarrow> region \<Rightarrow> nat \<Rightarrow> nat \<Rightarrow> region \<Rightarrow> nat \<Rightarrow> 'a::plus heap \<Rightarrow> 'a heap" where
  "scan_rows rows rg f l rs D h = fold (scan_rows_lane rows rg f l rs) [0..<D] h"

text \<open>
  \<open>scan_sums(f, l, tidx)\<close>, with \<open>rows = 8\<close>: the rows are reduced, the lane at the tile
  origin scans the eight row sums serially, the rows are scanned. Barriers separate the
  three phases.
\<close>

definition scan_sums :: "region \<Rightarrow> nat \<Rightarrow> nat \<Rightarrow> nat \<Rightarrow> 'a::{zero,plus} heap \<Rightarrow> 'a heap" where
  "scan_sums rg f l D h =
     (let rows = 8;
          row_sums = thread_local_new rows;
          h1 = reduce_rows rows rg f l D h;
          h2 = h1(row_sums := snd (serial_scan 0 rows (h1 row_sums)));
          h3 = scan_rows rows rg f l row_sums D h2
      in h3)"

text \<open>
  \<open>scan(f, l, tidx)\<close>, with \<open>rows = tile_dim0 < 64 ? tile_dim0 : 64\<close>. The view
  \<open>mtx_view\<close> declared in its body is never used.
\<close>

definition scan :: "region \<Rightarrow> nat \<Rightarrow> nat \<Rightarrow> nat \<Rightarrow> 'a::{zero,plus} heap \<Rightarrow> nat \<times> 'a heap" where
  "scan rg f l D h =
     (if f \<ge> l then (l, h)
      else
        (let rows = (if D < 64 then D else 64);
             row_sums = thread_local_new rows;
             h1 = reduce_rows rows rg f l D h;
             h2 = scan_sums row_sums 0 rows D h1;
             h3 = scan_rows rows rg f l row_sums D h2
         in (l - 1, h3)))"

subsection \<open>Block locks (lines 397-415)\<close>

text \<open>
  \<open>concurrency::atomic_compare_exchange(dest, expected, value)\<close> is the library's
  compare-and-exchange (amp.h): when \<open>*dest\<close> equals \<open>*expected\<close> it stores \<open>value\<close> and
  returns true; otherwise it stores the value found in \<open>*dest\<close> into \<open>*expected\<close> and
  returns false. The result is the success flag, the new \<open>*expected\<close> and the lock table.
\<close>

definition atomic_compare_exchange ::
  "u32 array \<Rightarrow> nat \<Rightarrow> u32 \<Rightarrow> u32 \<Rightarrow> bool \<times> u32 \<times> u32 array" where
  "atomic_compare_exchange blocks block expected v =
     (if blocks block = expected then (True, expected, blocks(block := v))
      else (False, blocks block, blocks))"

text \<open>\<open>release_block\<close>: \<open>atomic_exchange(&blocks(block), 0u)\<close> by the lane at the tile origin.\<close>

definition release_block :: "u32 array \<Rightarrow> nat \<Rightarrow> u32 array" where
  "release_block blocks block = blocks(block := 0)"

subsection \<open>partition (lines 416-491)\<close>

definition SIMD_w :: nat where
  "SIMD_w = 64"

text \<open>
  Where a tile stands in the kernel. The barriers and the atomic operations of the source
  cut the kernel's body into the phases named here (\<open>Count\<close> holds the flags and both
  scans, barriers included, which touch tile-static memory only); a tile runs one phase at
  a time, and between two phases of one tile any other tile may run phases of its own,
  since no barrier spans tiles. Within a phase the lanes of the tile run in lockstep. \<open>Acquire_true\<close> and \<open>Acquire_false\<close> stand for one
  attempt of the spin loop of \<open>acquire_block\<close>.
\<close>

datatype pc = Load | Release_own | Count | Reserve_true | Reserve_false
  | Acquire_true | Write_true | Release_true
  | Acquire_false | Write_false | Release_false | Done

text \<open>
  What a tile holds: the register \<open>tmp\<close> of each lane, the tile-static arrays (\<open>p_t\<close>,
  \<open>p_f\<close> and the row sums of the scans), the tile-static \<open>true_idx\<close> and \<open>false_idx\<close>, and
  the local \<open>unlocked\<close> of the spinning lane inside \<open>acquire_block\<close>.
\<close>

record 'a tile =
  at :: pc
  tmp :: "'a array"
  shared :: "u32 heap"
  true_idx :: u32
  false_idx :: u32
  unlocked :: u32

text \<open>
  What the tiles share: the caller's memory, of which \<open>range\<close> views the cells from \<open>f\<close>
  on, the lock table \<open>blocks\<close>, and the two cursors \<open>counters\<close>.
\<close>

record 'a kernel =
  memory :: "'a array"
  blocks :: "u32 array"
  counters :: "u32 \<times> u32"
  tiles :: "nat \<Rightarrow> 'a tile"

definition p_true :: region where
  "p_true = Caller 0"

definition p_false :: region where
  "p_false = Caller 1"

text \<open>\<open>range.extent.contains(tidx.global)\<close> for lane \<open>lane\<close> of tile \<open>g\<close>; \<open>n\<close> is the extent.\<close>

definition valid :: "nat \<Rightarrow> nat \<Rightarrow> nat \<Rightarrow> bool" where
  "valid n g lane = (g * SIMD_w + lane < n)"

text \<open>
  \<^verbatim>\<open>p_true[tidx.local] = valid ? p(tmp) : 0u;  p_false[tidx.local] = valid ? !p(tmp) : 0u;\<close>
\<close>

definition flags_lane :: "('a \<Rightarrow> bool) \<Rightarrow> nat \<Rightarrow> nat \<Rightarrow> 'a array \<Rightarrow> nat \<Rightarrow> u32 heap \<Rightarrow> u32 heap" where
  "flags_lane p n g regs lane h =
     (let h1 = h(p_true := (h p_true)(lane := (if valid n g lane then of_bool (p (regs lane)) else 0)))
      in h1(p_false := (h1 p_false)(lane := (if valid n g lane then of_bool (\<not> p (regs lane)) else 0))))"

text \<open>
  The flags of all lanes, a barrier, and the two scans (lines 450-456):
  \<^verbatim>\<open>scan(begin(p_true), end(p_true), tidx);  scan(begin(p_false), end(p_false), tidx);\<close>
  Both arrays have \<open>SIMD_w\<close> cells and the tile has \<open>SIMD_w\<close> lanes.
\<close>

definition scan_flags :: "('a \<Rightarrow> bool) \<Rightarrow> nat \<Rightarrow> nat \<Rightarrow> 'a array \<Rightarrow> u32 heap \<Rightarrow> u32 heap" where
  "scan_flags p n g regs h =
     (let h1 = fold (flags_lane p n g regs) [0..<SIMD_w] h;
          h2 = snd (scan p_true 0 SIMD_w SIMD_w h1);
          h3 = snd (scan p_false 0 SIMD_w SIMD_w h2)
      in h3)"

text \<open>
  The offsets the lane \<open>SIMD_w - 1\<close> computes after the scans:
  \<^verbatim>\<open>const auto true_off = p_true[tidx.local] + (valid ? p(tmp) : 0u);\<close>
\<close>

definition true_off :: "('a \<Rightarrow> bool) \<Rightarrow> nat \<Rightarrow> nat \<Rightarrow> 'a tile \<Rightarrow> u32" where
  "true_off p n g t =
     shared t p_true (SIMD_w - 1)
       + (if valid n g (SIMD_w - 1) then of_bool (p (tmp t (SIMD_w - 1))) else 0)"

definition false_off :: "('a \<Rightarrow> bool) \<Rightarrow> nat \<Rightarrow> nat \<Rightarrow> 'a tile \<Rightarrow> u32" where
  "false_off p n g t =
     shared t p_false (SIMD_w - 1)
       + (if valid n g (SIMD_w - 1) then of_bool (\<not> p (tmp t (SIMD_w - 1))) else 0)"

text \<open>
  The two write phases, one lane at a time:
  \<^verbatim>\<open>if (valid && p(tmp)) { range(true_idx + p_true[tidx.local]) = tmp; }\<close>
  The index is computed in \<open>unsigned int\<close>; cell \<open>i\<close> of \<open>range\<close> is cell \<open>f + i\<close> of the memory.
\<close>

definition write_true_lane ::
  "nat \<Rightarrow> ('a \<Rightarrow> bool) \<Rightarrow> nat \<Rightarrow> nat \<Rightarrow> 'a tile \<Rightarrow> nat \<Rightarrow> 'a array \<Rightarrow> 'a array" where
  "write_true_lane f p n g t lane mem =
     (if valid n g lane \<and> p (tmp t lane)
      then mem(f + unat (true_idx t + shared t p_true lane) := tmp t lane) else mem)"

definition write_false_lane ::
  "nat \<Rightarrow> ('a \<Rightarrow> bool) \<Rightarrow> nat \<Rightarrow> nat \<Rightarrow> 'a tile \<Rightarrow> nat \<Rightarrow> 'a array \<Rightarrow> 'a array" where
  "write_false_lane f p n g t lane mem =
     (if valid n g lane \<and> \<not> p (tmp t lane)
      then mem(f + unat (false_idx t + shared t p_false lane) := tmp t lane) else mem)"

text \<open>
  One phase of tile \<open>g\<close>, in the order of the kernel's body (lines 439-488). The range is
  the cells \<open>f .. f + n - 1\<close> of the memory and \<open>p\<close> is the predicate.
\<close>

definition step :: "nat \<Rightarrow> nat \<Rightarrow> ('a::zero \<Rightarrow> bool) \<Rightarrow> nat \<Rightarrow> 'a kernel \<Rightarrow> 'a kernel" where
  "step f n p g s =
     (let t = tiles s g;
          put = (\<lambda>t' s'. s'\<lparr>tiles := (tiles s')(g := t')\<rparr>)
      in case at t of
        Load \<Rightarrow>
          put (t\<lparr>at := Release_own,
                 tmp := (\<lambda>lane. if valid n g lane then memory s (f + (g * SIMD_w + lane)) else 0)\<rparr>) s
      | Release_own \<Rightarrow>
          put (t\<lparr>at := Count\<rparr>) (s\<lparr>blocks := release_block (blocks s) g\<rparr>)
      | Count \<Rightarrow>
          put (t\<lparr>at := Reserve_true, shared := scan_flags p n g (tmp t) (shared t)\<rparr>) s
      | Reserve_true \<Rightarrow>
          put (t\<lparr>at := Reserve_false, true_idx := fst (counters s)\<rparr>)
              (s\<lparr>counters := (fst (counters s) + true_off p n g t, snd (counters s))\<rparr>)
      | Reserve_false \<Rightarrow>
          put (t\<lparr>at := Acquire_true, false_idx := snd (counters s) - false_off p n g t, unlocked := 0\<rparr>)
              (s\<lparr>counters := (fst (counters s), snd (counters s) - false_off p n g t)\<rparr>)
      | Acquire_true \<Rightarrow>
          (case atomic_compare_exchange (blocks s) (unat (true_idx t div of_nat SIMD_w)) (unlocked t) 1 of
             (ok, expected, blocks') \<Rightarrow>
               put (t\<lparr>at := (if ok then Write_true else Acquire_true), unlocked := expected\<rparr>)
                   (s\<lparr>blocks := blocks'\<rparr>))
      | Write_true \<Rightarrow>
          put (t\<lparr>at := Release_true\<rparr>)
              (s\<lparr>memory := fold (write_true_lane f p n g t) [0..<SIMD_w] (memory s)\<rparr>)
      | Release_true \<Rightarrow>
          put (t\<lparr>at := Acquire_false, unlocked := 0\<rparr>)
              (s\<lparr>blocks := release_block (blocks s) (unat (true_idx t div of_nat SIMD_w))\<rparr>)
      | Acquire_false \<Rightarrow>
          (case atomic_compare_exchange (blocks s) (unat (false_idx t div of_nat SIMD_w)) (unlocked t) 1 of
             (ok, expected, blocks') \<Rightarrow>
               put (t\<lparr>at := (if ok then Write_false else Acquire_false), unlocked := expected\<rparr>)
                   (s\<lparr>blocks := blocks'\<rparr>))
      | Write_false \<Rightarrow>
          put (t\<lparr>at := Release_false\<rparr>)
              (s\<lparr>memory := fold (write_false_lane f p n g t) [0..<SIMD_w] (memory s)\<rparr>)
      | Release_false \<Rightarrow>
          put (t\<lparr>at := Done\<rparr>)
              (s\<lparr>blocks := release_block (blocks s) (unat (false_idx t div of_nat SIMD_w))\<rparr>)
      | Done \<Rightarrow> s)"

text \<open>
  The number of tiles, \<open>domain.size() / SIMD_w\<close> for the padded domain, which is also the
  length of the lock table.
\<close>

definition tile_count :: "nat \<Rightarrow> nat" where
  "tile_count n = (n + (SIMD_w - 1)) div SIMD_w"

text \<open>
  The state when the second kernel starts: every entry of the lock table holds 1 (the first
  kernel, line 434), the cursors are \<open>(0, n)\<close>, every tile is at its first phase. What the
  source leaves uninitialised is taken from \<open>junk\<close>: the registers and tile-static cells of
  each tile, and the device cells behind the lock table.
\<close>

definition init :: "'a kernel \<Rightarrow> nat \<Rightarrow> 'a array \<Rightarrow> 'a kernel" where
  "init junk n mem =
     \<lparr>memory = mem,
      blocks = (\<lambda>b. if b < tile_count n then 1 else blocks junk b),
      counters = (0, of_nat n),
      tiles = (\<lambda>g. (tiles junk g)\<lparr>at := Load\<rparr>)\<rparr>"

text \<open>
  A schedule lists, in the order in which they happen, the tiles that run their next
  phase. \<open>run\<close> carries a state through a schedule; entries that name no tile of the
  domain are skipped.
\<close>

definition run :: "nat \<Rightarrow> nat \<Rightarrow> ('a::zero \<Rightarrow> bool) \<Rightarrow> nat list \<Rightarrow> 'a kernel \<Rightarrow> 'a kernel" where
  "run f n p sched s = fold (\<lambda>g s'. if g < tile_count n then step f n p g s' else s') sched s"

definition finished :: "nat \<Rightarrow> 'a kernel \<Rightarrow> bool" where
  "finished n s = list_all (\<lambda>g. at (tiles s g) = Done) [0..<tile_count n]"

text \<open>
  \<open>partition(f, l, p)\<close> under a schedule of its tiles. \<open>parallel_for_each\<close> and
  \<open>counters.synchronize()\<close> return once every tile has run to its end; a schedule that
  leaves a tile unfinished yields no result.
\<close>

definition partition ::
  "nat list \<Rightarrow> 'a kernel \<Rightarrow> nat \<Rightarrow> nat \<Rightarrow> ('a::zero \<Rightarrow> bool) \<Rightarrow> 'a array \<Rightarrow> (nat \<times> 'a array) option" where
  "partition sched junk f l p mem =
     (if f \<ge> l then Some (l, mem)
      else
        (let s = run f (l - f) p sched (init junk (l - f) mem)
         in if finished (l - f) s then Some (f + unat (fst (counters s)), memory s) else None))"

subsection \<open>Concrete inputs\<close>

text \<open>
  A tile's heap whose caller array \<open>Caller 0\<close> starts with the given list; every other
  cell, the uninitialised row sums included, holds \<open>d\<close>.
\<close>

definition heap_of :: "'a \<Rightarrow> 'a list \<Rightarrow> 'a heap" where
  "heap_of d xs = (\<lambda>_ _. d)(Caller 0 := array_of d xs)"

text \<open>
  A start of the kernel in which everything the source leaves uninitialised holds zero.
\<close>

definition blank_tile :: "nat tile" where
  "blank_tile =
     \<lparr>at = Load, tmp = (\<lambda>_. 0), shared = (\<lambda>_ _. 0), true_idx = 0, false_idx = 0, unlocked = 0\<rparr>"

definition blank :: "nat kernel" where
  "blank = \<lparr>memory = (\<lambda>_. 0), blocks = (\<lambda>_. 0), counters = (0, 0), tiles = (\<lambda>_. blank_tile)\<rparr>"

subsection \<open>Vocabulary for the properties of partition\<close>

text \<open>
  The number of lanes below \<open>k\<close> of tile \<open>g\<close> that are in range and whose register satisfies
  the predicate, and the number of those whose register does not.
\<close>

definition trues_before :: "('a \<Rightarrow> bool) \<Rightarrow> nat \<Rightarrow> nat \<Rightarrow> 'a array \<Rightarrow> nat \<Rightarrow> nat" where
  "trues_before p n g regs k = length (filter (\<lambda>j. valid n g j \<and> p (regs j)) [0..<k])"

definition falses_before :: "('a \<Rightarrow> bool) \<Rightarrow> nat \<Rightarrow> nat \<Rightarrow> 'a array \<Rightarrow> nat \<Rightarrow> nat" where
  "falses_before p n g regs k = length (filter (\<lambda>j. valid n g j \<and> \<not> p (regs j)) [0..<k])"

text \<open>The number of lanes of tile \<open>g\<close> that are in range.\<close>

definition valid_lanes :: "nat \<Rightarrow> nat \<Rightarrow> nat" where
  "valid_lanes n g = length (filter (valid n g) [0..<SIMD_w])"

text \<open>
  The cells of \<open>range\<close> a tile has reserved: \<open>true_off\<close> cells from \<open>true_idx\<close> on, and
  \<open>false_off\<close> cells from \<open>false_idx\<close> on.
\<close>

definition true_run :: "('a \<Rightarrow> bool) \<Rightarrow> nat \<Rightarrow> nat \<Rightarrow> 'a tile \<Rightarrow> nat set" where
  "true_run p n g t = {unat (true_idx t) ..< unat (true_idx t) + unat (true_off p n g t)}"

definition false_run :: "('a \<Rightarrow> bool) \<Rightarrow> nat \<Rightarrow> nat \<Rightarrow> 'a tile \<Rightarrow> nat set" where
  "false_run p n g t = {unat (false_idx t) ..< unat (false_idx t) + unat (false_off p n g t)}"

text \<open>The phases after which a tile has drawn on the first cursor, and on both.\<close>

fun reserved_true :: "pc \<Rightarrow> bool" where
  "reserved_true Load = False"
| "reserved_true Release_own = False"
| "reserved_true Count = False"
| "reserved_true Reserve_true = False"
| "reserved_true _ = True"

fun reserved :: "pc \<Rightarrow> bool" where
  "reserved Reserve_false = False"
| "reserved c = reserved_true c"

text \<open>The phases after which the flags of a tile have been scanned.\<close>

fun counted :: "pc \<Rightarrow> bool" where
  "counted Load = False"
| "counted Release_own = False"
| "counted Count = False"
| "counted _ = True"

text \<open>
  After its scans a tile holds, for each lane, the number of earlier lanes of the tile
  that go to the true run, and the number that go to the false run.
\<close>

definition scanned :: "('a \<Rightarrow> bool) \<Rightarrow> nat \<Rightarrow> nat \<Rightarrow> 'a tile \<Rightarrow> bool" where
  "scanned p n g t =
     (\<forall>lane<SIMD_w. shared t p_true lane = of_nat (trues_before p n g (tmp t) lane)
                  \<and> shared t p_false lane = of_nat (falses_before p n g (tmp t) lane))"

text \<open>
  The run a tile holds in the true part of the output once it has drawn on the first
  cursor, as its first cell and its length; and the same for the false part.
\<close>

definition true_slot :: "('a \<Rightarrow> bool) \<Rightarrow> nat \<Rightarrow> 'a kernel \<Rightarrow> nat \<Rightarrow> (nat \<times> nat) option" where
  "true_slot p n s g =
     (if g < tile_count n \<and> reserved_true (at (tiles s g))
      then Some (unat (true_idx (tiles s g)), trues_before p n g (tmp (tiles s g)) SIMD_w)
      else None)"

definition false_slot :: "('a \<Rightarrow> bool) \<Rightarrow> nat \<Rightarrow> 'a kernel \<Rightarrow> nat \<Rightarrow> (nat \<times> nat) option" where
  "false_slot p n s g =
     (if g < tile_count n \<and> reserved (at (tiles s g))
      then Some (unat (false_idx (tiles s g)), falses_before p n g (tmp (tiles s g)) SIMD_w)
      else None)"

definition slot_len :: "(nat \<times> nat) option \<Rightarrow> nat" where
  "slot_len w = (case w of None \<Rightarrow> 0 | Some (b, k) \<Rightarrow> k)"

text \<open>
  Runs handed out upwards from 0: the cursor is the total length of the runs, every run
  ends at or below the cursor, two runs of different tiles do not overlap, and every cell
  below the cursor lies in a run.
\<close>

definition runs_below :: "nat \<Rightarrow> nat \<Rightarrow> (nat \<Rightarrow> (nat \<times> nat) option) \<Rightarrow> bool" where
  "runs_below G cursor W =
     (cursor = (\<Sum>g<G. slot_len (W g))
      \<and> (\<forall>g b k. W g = Some (b, k) \<longrightarrow> b + k \<le> cursor)
      \<and> (\<forall>g g' b k b' k'. g \<noteq> g' \<and> W g = Some (b, k) \<and> W g' = Some (b', k')
             \<longrightarrow> b + k \<le> b' \<or> b' + k' \<le> b)
      \<and> (\<forall>i<cursor. \<exists>g b k. W g = Some (b, k) \<and> b \<le> i \<and> i < b + k))"

text \<open>Runs handed out downwards from \<open>n\<close>.\<close>

definition runs_above :: "nat \<Rightarrow> nat \<Rightarrow> nat \<Rightarrow> (nat \<Rightarrow> (nat \<times> nat) option) \<Rightarrow> bool" where
  "runs_above n G cursor W =
     (cursor + (\<Sum>g<G. slot_len (W g)) = n
      \<and> (\<forall>g b k. W g = Some (b, k) \<longrightarrow> cursor \<le> b \<and> b + k \<le> n)
      \<and> (\<forall>g g' b k b' k'. g \<noteq> g' \<and> W g = Some (b, k) \<and> W g' = Some (b', k')
             \<longrightarrow> b + k \<le> b' \<or> b' + k' \<le> b)
      \<and> (\<forall>i. cursor \<le> i \<and> i < n \<longrightarrow> (\<exists>g b k. W g = Some (b, k) \<and> b \<le> i \<and> i < b + k)))"

text \<open>What holds of the tiles and the two cursors between any two phases.\<close>

definition cursors_inv :: "('a \<Rightarrow> bool) \<Rightarrow> nat \<Rightarrow> 'a kernel \<Rightarrow> bool" where
  "cursors_inv p n s =
     ((\<forall>g<tile_count n. counted (at (tiles s g)) \<longrightarrow> scanned p n g (tiles s g))
      \<and> runs_below (tile_count n) (unat (fst (counters s))) (true_slot p n s)
      \<and> runs_above n (tile_count n) (unat (snd (counters s))) (false_slot p n s))"

text \<open>
  The write of one lane with the scanned offset written out as the count it is: lane
  \<open>lane\<close> of tile \<open>g\<close>, holding \<open>regs lane\<close>, stores it in the cell of \<open>range\<close> that lies as
  many cells after the start of the tile's run as there are earlier lanes of its kind.
\<close>

definition place_true ::
  "nat \<Rightarrow> ('a \<Rightarrow> bool) \<Rightarrow> nat \<Rightarrow> nat \<Rightarrow> 'a array \<Rightarrow> u32 \<Rightarrow> nat \<Rightarrow> 'a array \<Rightarrow> 'a array" where
  "place_true f p n g regs ti lane mem =
     (if valid n g lane \<and> p (regs lane)
      then mem(f + unat (ti + of_nat (trues_before p n g regs lane)) := regs lane) else mem)"

definition place_false ::
  "nat \<Rightarrow> ('a \<Rightarrow> bool) \<Rightarrow> nat \<Rightarrow> nat \<Rightarrow> 'a array \<Rightarrow> u32 \<Rightarrow> nat \<Rightarrow> 'a array \<Rightarrow> 'a array" where
  "place_false f p n g regs fi lane mem =
     (if valid n g lane \<and> \<not> p (regs lane)
      then mem(f + unat (fi + of_nat (falses_before p n g regs lane)) := regs lane) else mem)"

section \<open>Properties\<close>

subsection \<open>padded\_cols\<close>

lemma word_lsb_odd: "((w :: u32) mod 2 \<noteq> 0) = odd (unat w)"
  by (metis even_of_nat mod_0_imp_dvd of_nat_unat parity_cases ucast_id)

lemma odd_coprime_32: "odd (n :: nat) \<Longrightarrow> coprime n 32"
proof -
  assume "odd n"
  then have "coprime n (2 ^ 5)"
    by (metis coprime_power_right_iff coprime_right_2_iff_odd)
  then show ?thesis by simp
qed

lemma padded_cols_alt:
  "padded_cols len rows = (if odd (unat (len div rows)) then len div rows else len div rows + 1)"
  unfolding padded_cols_def word_lsb_odd ..

lemma unat_padded_cols:
  "unat (padded_cols len rows) =
     (if odd (unat len div unat rows) then unat len div unat rows
      else unat len div unat rows + 1)"
proof -
  let ?q = "len div rows"
  have q: "unat ?q = unat len div unat rows"
    by (simp add: unat_div)
  show ?thesis
  proof (cases "odd (unat ?q)")
    case True
    then show ?thesis using q by (simp add: padded_cols_alt)
  next
    case False
    have "unat ?q < 2 ^ 32" using unsigned_less [of ?q] by simp
    moreover have "unat ?q \<noteq> 2 ^ 32 - 1" using False by auto
    ultimately have "unat ?q + 1 < 2 ^ 32" by simp
    then have "unat (?q + 1) = unat ?q + 1"
      by (simp add: unat_word_ariths)
    then show ?thesis using False q by (simp add: padded_cols_alt)
  qed
qed

text \<open>
  C7. For every length and every \<open>rows > 0\<close>, \<open>padded_cols len rows\<close> (\<open>len\<close> is the
  source's \<open>length\<close>) is odd, hence co-prime with the bank count 32; it is the quotient
  \<open>length / rows\<close> when that quotient is odd and the quotient plus one when the quotient
  is even (the quotient 0 included). The quotient is the unsigned machine quotient, and
  the increment never wraps.
\<close>

theorem padded_cols_odd:
  assumes "rows \<noteq> 0"
  shows "odd (unat (padded_cols len rows))
       \<and> coprime (unat (padded_cols len rows)) 32
       \<and> padded_cols len rows = (if odd (unat (len div rows)) then len div rows else len div rows + 1)
       \<and> unat (padded_cols len rows) =
           (if odd (unat len div unat rows) then unat len div unat rows
            else unat len div unat rows + 1)"
proof -
  have od: "odd (unat (padded_cols len rows))"
    by (simp add: unat_padded_cols)
  show ?thesis
    using od odd_coprime_32 [OF od] padded_cols_alt [of len rows] unat_padded_cols [of len rows]
    by blast
qed

theorem padded_cols_odd_witness:
  "(8 :: u32) \<noteq> 0 \<and> odd (unat (padded_cols 64 8)) \<and> coprime (unat (padded_cols 64 8)) 32
   \<and> padded_cols 64 8 = 9 \<and> padded_cols 63 9 = 7 \<and> padded_cols 3 8 = 1"
proof -
  have h: "(8 :: u32) \<noteq> 0" by simp
  have v: "padded_cols 64 8 = 9" "padded_cols 63 9 = 7" "padded_cols 3 8 = 1"
    by (simp_all add: padded_cols_def)
  show ?thesis
    using h v padded_cols_odd [OF h, of 64] by blast
qed

subsection \<open>Cells, serial scans and serial accumulation\<close>

lemma cells_Nil [simp]: "l \<le> f \<Longrightarrow> cells a f l = []"
  by (simp add: cells_def)

lemma cells_Cons: "f < l \<Longrightarrow> cells a f l = a f # cells a (Suc f) l"
  by (simp add: cells_def upt_conv_Cons)

lemma cells_snoc: "f \<le> l \<Longrightarrow> cells a f (Suc l) = cells a f l @ [a l]"
  by (simp add: cells_def)

lemma length_cells [simp]: "length (cells a f l) = l - f"
  by (simp add: cells_def)

lemma cells_cong: "(\<And>i. f \<le> i \<Longrightarrow> i < l \<Longrightarrow> a i = b i) \<Longrightarrow> cells a f l = cells b f l"
  by (simp add: cells_def)

lemma cells_append: "f \<le> m \<Longrightarrow> m \<le> l \<Longrightarrow> cells a f l = cells a f m @ cells a m l"
  unfolding cells_def
  by (metis le_Suc_ex map_append upt_add_eq_append)

lemma foldl_plus_sum_list: "foldl (+) (r :: 'a::monoid_add) xs = r + sum_list xs"
  by (induction xs arbitrary: r) (simp_all add: add.assoc)

lemma serial_scan_op_loop_at:
  "f \<le> l \<Longrightarrow> serial_scan_op_loop op f l res a i =
     (if f \<le> i \<and> i < l then foldl op res (cells a f i) else a i)"
proof (induction op f l res a rule: serial_scan_op_loop.induct)
  case (1 op f l res a)
  show ?case
  proof (cases "f < l")
    case False
    then show ?thesis using "1.prems" by (subst serial_scan_op_loop.simps) auto
  next
    case True
    then have le: "f + 1 \<le> l" by simp
    have same: "cells (a(f := res)) (f + 1) i = cells a (f + 1) i"
      by (rule cells_cong) simp
    note ih = "1.IH" [OF True le]
    have unf: "serial_scan_op_loop op f l res a i =
        serial_scan_op_loop op (f + 1) l (op res (a f)) (a(f := res)) i"
      by (subst serial_scan_op_loop.simps) (simp only: True if_True)
    show ?thesis
    proof (cases "f < i")
      case lt: True
      have "cells a f i = a f # cells a (f + 1) i"
        using lt by (simp add: cells_Cons)
      then show ?thesis unfolding unf ih same using True lt by simp
    next
      case False
      then show ?thesis unfolding unf ih same using True by auto
    qed
  qed
qed

lemma serial_scan_loop_op: "serial_scan_loop f l res a = serial_scan_op_loop (+) f l res a"
proof (induction f l res a rule: serial_scan_loop.induct)
  case (1 f l res a)
  show ?case
  proof (cases "f < l")
    case True
    show ?thesis
      by (subst serial_scan_loop.simps, subst serial_scan_op_loop.simps)
         (simp only: True if_True "1.IH" [OF True])
  next
    case False
    show ?thesis
      by (subst serial_scan_loop.simps, subst serial_scan_op_loop.simps)
         (simp only: False if_False)
  qed
qed

lemma serial_scan_loop_at:
  fixes a :: "'a::monoid_add array"
  shows "f \<le> l \<Longrightarrow> serial_scan_loop f l res a i =
     (if f \<le> i \<and> i < l then res + sum_list (cells a f i) else a i)"
  by (simp add: serial_scan_loop_op serial_scan_op_loop_at foldl_plus_sum_list)

lemma serial_scan_at:
  fixes a :: "'a::monoid_add array"
  shows "snd (serial_scan f l a) i = (if f \<le> i \<and> i < l then sum_list (cells a f i) else a i)"
  by (simp add: serial_scan_def serial_scan_loop_at)

lemma serial_accumulate_loop_sum:
  fixes a :: "'a::monoid_add array"
  shows "serial_accumulate_loop a f l v = v + sum_list (cells a f l)"
proof (induction a f l v rule: serial_accumulate_loop.induct)
  case (1 a f l v)
  show ?case
  proof (cases "f < l")
    case True
    then show ?thesis using "1.IH"
      by (subst serial_accumulate_loop.simps) (simp add: cells_Cons add.assoc)
  next
    case False
    then show ?thesis by (subst serial_accumulate_loop.simps) simp
  qed
qed

lemma serial_accumulate_sum:
  fixes a :: "'a::monoid_add array"
  shows "serial_accumulate a f l v = v + sum_list (cells a f l)"
  by (simp add: serial_accumulate_def serial_accumulate_loop_sum)

subsection \<open>reduce\<close>

text \<open>
  The cells a lane reaches from offset \<open>i\<close> on: cell \<open>c\<close> is \<open>l - e - 1\<close> for an
  \<open>e = lane + i + k * D\<close> below \<open>m\<close>.
\<close>

lemma reduce_lane_at:
  fixes a :: "'a::plus array"
  assumes "0 < D" "2 * m \<le> l"
  shows "reduce_lane m l D lane i a c =
     (if l - m \<le> c \<and> c < l \<and> lane + i \<le> l - 1 - c \<and> (l - 1 - c - (lane + i)) mod D = 0
      then a c + a (c - m) else a c)"
  using assms
proof (induction m l D lane i a arbitrary: c rule: reduce_lane.induct)
  case (1 m l D lane i a)
  show ?case
  proof (cases "i < m")
    case False
    have "reduce_lane m l D lane i a = a"
      using False by (subst reduce_lane.simps) simp
    moreover have "\<not> (l - m \<le> c \<and> c < l \<and> lane + i \<le> l - 1 - c)"
      using False "1.prems" by auto
    ultimately show ?thesis by auto
  next
    case True
    define e where "e = lane + i"
    define a' where "a' = (if e < m then a(l - e - 1 := a (l - e - 1) + a (l - m - e - 1)) else a)"
    have unf: "reduce_lane m l D lane i a = reduce_lane m l D lane (i + D) a'"
      using True "1.prems"(1) by (subst reduce_lane.simps) (simp add: Let_def e_def a'_def)
    have ih: "reduce_lane m l D lane (i + D) a' c =
        (if l - m \<le> c \<and> c < l \<and> lane + (i + D) \<le> l - 1 - c \<and> (l - 1 - c - (lane + (i + D))) mod D = 0
         then a' c + a' (c - m) else a' c)"
      using "1.IH" [OF _ e_def a'_def "1.prems"] True "1.prems"(1) by simp
    have low: "l - m \<le> c \<Longrightarrow> c < l \<Longrightarrow> a' (c - m) = a (c - m)"
      using "1.prems"(2) by (auto simp: a'_def)
    have hit1: "e < m \<Longrightarrow> c = l - e - 1 \<Longrightarrow> a' c = a c + a (c - m)"
    proof -
      assume em: "e < m" and ce: "c = l - e - 1"
      have "l - m - e - 1 = (l - e - 1) - m"
        using "1.prems"(2) em by simp
      then show ?thesis using em ce by (simp add: a'_def)
    qed
    have hit2: "\<not> (e < m \<and> c = l - e - 1) \<Longrightarrow> a' c = a c"
      by (auto simp: a'_def)
    have split: "(lane + i \<le> l - 1 - c \<and> (l - 1 - c - (lane + i)) mod D = 0) =
        (l - 1 - c = e \<or> (lane + (i + D) \<le> l - 1 - c \<and> (l - 1 - c - (lane + (i + D))) mod D = 0))"
    proof -
      define x where "x = l - 1 - c"
      have "(e \<le> x \<and> (x - e) mod D = 0) = (x = e \<or> (e + D \<le> x \<and> (x - (e + D)) mod D = 0))"
      proof (cases "e \<le> x")
        case False
        then show ?thesis by auto
      next
        case le: True
        then obtain y where y: "x = e + y" using le_Suc_ex by blast
        show ?thesis
        proof (cases "y < D")
          case True
          then show ?thesis using y "1.prems"(1) by auto
        next
          case False
          then obtain z where "y = D + z" using le_Suc_ex not_less by blast
          then show ?thesis using y "1.prems"(1) by (simp add: add.commute)
        qed
      qed
      then show ?thesis by (simp add: x_def e_def add.assoc)
    qed
    show ?thesis
    proof (cases "l - m \<le> c \<and> c < l")
      case False
      then have "\<not> (e < m \<and> c = l - e - 1)"
        using "1.prems"(2) by auto
      then have "a' c = a c" by (rule hit2)
      then show ?thesis unfolding unf ih using False by auto
    next
      case in_top: True
      let ?now = "lane + i \<le> l - 1 - c \<and> (l - 1 - c - (lane + i)) mod D = 0"
      let ?later = "lane + (i + D) \<le> l - 1 - c \<and> (l - 1 - c - (lane + (i + D))) mod D = 0"
      have top: "(l - m \<le> c \<and> c < l \<and> ?now) = ?now" "(l - m \<le> c \<and> c < l \<and> ?later) = ?later"
        using in_top by auto
      show ?thesis
      proof (cases "l - 1 - c = e")
        case True
        then have ec: "e < m" "c = l - e - 1"
          using in_top "1.prems"(2) by auto
        have nl: "?later = False"
          using True "1.prems"(1) by (simp add: e_def)
        have nw: "?now = True"
          using True split by simp
        have ac: "a' c = a c + a (c - m)"
          using ec by (rule hit1)
        show ?thesis
          unfolding unf ih top nl nw ac using in_top by simp
      next
        case False
        then have "\<not> (e < m \<and> c = l - e - 1)"
          using in_top "1.prems"(2) by auto
        then have ac: "a' c = a c"
          by (rule hit2)
        have am: "a' (c - m) = a (c - m)"
          using low in_top by simp
        have nw: "?now = ?later"
          using False split by simp
        show ?thesis
          unfolding unf ih top ac am nw using in_top by simp
      qed
    qed
  qed
qed

subsection \<open>reduce: rounds\<close>

lemma residue_hit:
  "k < D \<Longrightarrow> (k \<le> x \<and> (x - k) mod D = 0) = (x mod D = (k::nat))"
  by (metis bot_nat_0.not_eq_extremum mod_eq_dvd_iff_nat
      mod_greater_zero_iff_not_dvd mod_if mod_less_eq_dividend)

lemma reduce_lanes_at:
  fixes a :: "'a::plus array"
  assumes "0 < D" "2 * m \<le> l" "k \<le> D"
  shows "fold (\<lambda>lane. reduce_lane m l D lane 0) [0..<k] a c =
     (if l - m \<le> c \<and> c < l \<and> (l - 1 - c) mod D < k then a c + a (c - m) else a c)"
  using assms(3)
proof (induction k arbitrary: c)
  case 0
  show ?case by simp
next
  case (Suc k)
  define b where "b = fold (\<lambda>lane. reduce_lane m l D lane 0) [0..<k] a"
  have ih: "\<And>c. b c =
      (if l - m \<le> c \<and> c < l \<and> (l - 1 - c) mod D < k then a c + a (c - m) else a c)"
    using Suc by (simp add: b_def)
  have kD: "k < D" using Suc.prems by simp
  have step: "fold (\<lambda>lane. reduce_lane m l D lane 0) [0..<Suc k] a c = reduce_lane m l D k 0 b c"
    by (simp add: b_def)
  have lane: "reduce_lane m l D k 0 b c =
      (if l - m \<le> c \<and> c < l \<and> (l - 1 - c) mod D = k then b c + b (c - m) else b c)"
    using reduce_lane_at [OF assms(1,2), of k 0 b c] residue_hit [OF kD, of "l - 1 - c"]
    by simp
  have below: "l - m \<le> c \<Longrightarrow> c < l \<Longrightarrow> b (c - m) = a (c - m)"
    using ih [of "c - m"] assms(2) by auto
  show ?case
  proof (cases "l - m \<le> c \<and> c < l \<and> (l - 1 - c) mod D = k")
    case True
    then have "b c = a c" using ih [of c] by simp
    then show ?thesis unfolding step lane using True below by simp
  next
    case False
    then show ?thesis unfolding step lane using ih [of c] by (auto simp: less_Suc_eq)
  qed
qed

lemma reduce_round_at:
  fixes a :: "'a::plus array"
  assumes "0 < D" "2 * m \<le> l"
  shows "reduce_round m l D a c = (if l - m \<le> c \<and> c < l then a c + a (c - m) else a c)"
  using reduce_lanes_at [OF assms, of D a c] assms(1) by (simp add: reduce_round_def)

lemma sum_shift_down:
  fixes a :: "nat \<Rightarrow> 'a::comm_monoid_add"
  assumes "2 * M \<le> l"
  shows "(\<Sum>c = l - M..<l. a (c - M)) = (\<Sum>c = l - 2 * M..<l - M. a c)"
proof -
  have "(\<Sum>c = (l - 2 * M) + M..<(l - M) + M. a (c - M)) = (\<Sum>c = l - 2 * M..<l - M. a (c + M - M))"
    by (rule sum.shift_bounds_nat_ivl)
  moreover have "(l - 2 * M) + M = l - M" "(l - M) + M = l"
    using assms by simp_all
  ultimately show ?thesis by simp
qed

lemma sum_join_halves:
  fixes a :: "nat \<Rightarrow> 'a::comm_monoid_add"
  shows "2 * M \<le> l \<Longrightarrow> (\<Sum>c = l - 2 * M..<l - M. a c) + (\<Sum>c = l - M..<l. a c) = (\<Sum>c = l - 2 * M..<l. a c)"
  by (metis diff_diff_eq diff_le_self mult.commute mult_2_right sum.atLeastLessThan_concat)

lemma reduce_rounds_pow2:
  fixes a :: "'a::comm_monoid_add array"
  assumes "0 < D"
  shows "2 * 2 ^ k \<le> l \<Longrightarrow> reduce_rounds (2 ^ k) l D a (l - 1) = (\<Sum>c = l - 2 * 2 ^ k..<l. a c)"
proof (induction k arbitrary: a)
  case 0
  then obtain l' where l: "l = Suc (Suc l')"
    by (cases l; cases "l - 1"; simp)
  have "reduce_rounds (2 ^ 0) l D a = reduce_round 1 l D a"
    by (subst reduce_rounds.simps, subst reduce_rounds.simps) simp
  moreover have "reduce_round 1 l D a (l - 1) = a (l - 1) + a (l - 1 - 1)"
    using reduce_round_at [OF assms, of 1 l a "l - 1"] l by simp
  moreover have "(\<Sum>c = l - 2 * 2 ^ 0..<l. a c) = a l' + a (Suc l')"
    by (simp add: l)
  ultimately show ?case by (simp add: l add.commute)
next
  case (Suc k)
  let ?M = "2 ^ Suc k :: nat"
  define a' where "a' = reduce_round ?M l D a"
  have a': "\<And>c. a' c = (if l - ?M \<le> c \<and> c < l then a c + a (c - ?M) else a c)"
    unfolding a'_def using reduce_round_at [OF assms, of ?M l a] Suc.prems by simp
  have "reduce_rounds ?M l D a = reduce_rounds (2 ^ k) l D a'"
    by (subst reduce_rounds.simps) (simp add: a'_def)
  moreover have "reduce_rounds (2 ^ k) l D a' (l - 1) = (\<Sum>c = l - 2 * 2 ^ k..<l. a' c)"
    using Suc.IH [of a'] Suc.prems by simp
  moreover have "(\<Sum>c = l - ?M..<l. a' c) = (\<Sum>c = l - ?M..<l. a c + a (c - ?M))"
    by (rule sum.cong) (simp_all add: a')
  moreover have "(\<Sum>c = l - ?M..<l. a c + a (c - ?M)) = (\<Sum>c = l - ?M..<l. a c) + (\<Sum>c = l - ?M..<l. a (c - ?M))"
    by (rule sum.distrib)
  moreover have "(\<Sum>c = l - ?M..<l. a (c - ?M)) = (\<Sum>c = l - 2 * ?M..<l - ?M. a c)"
    using sum_shift_down [of ?M l a] Suc.prems by simp
  moreover have "(\<Sum>c = l - 2 * ?M..<l - ?M. a c) + (\<Sum>c = l - ?M..<l. a c) = (\<Sum>c = l - 2 * ?M..<l. a c)"
    using sum_join_halves [of ?M l a] Suc.prems by simp
  ultimately show ?case by (simp add: add.commute)
qed

lemma sum_list_cells:
  fixes a :: "'a::comm_monoid_add array"
  shows "sum_list (cells a f l) = (\<Sum>c = f..<l. a c)"
  by (simp add: cells_def interv_sum_list_conv_sum_set_nat)

lemma reduce_pow2:
  fixes a :: "'a::comm_monoid_add array"
  assumes "0 < D" "l - f = 2 ^ k"
  shows "fst (reduce f l D a) = l - 1 \<and> snd (reduce f l D a) (l - 1) = sum_list (cells a f l)"
proof -
  have fl: "f < l" using assms(2) by (metis diff_is_0_eq' linorder_not_less power_not_zero zero_neq_numeral)
  show ?thesis
  proof (cases k)
    case 0
    then have "l - f = 1" using assms(2) by simp
    then have "(l - f) div 2 = 0" "f = l - 1" by simp_all
    moreover have "reduce_rounds 0 l D a = a" by (subst reduce_rounds.simps) simp
    moreover have "cells a (l - 1) l = [a (l - 1)]"
    proof -
      obtain l' where "l = Suc l'" using fl by (cases l) auto
      then show ?thesis by (simp add: cells_def)
    qed
    ultimately show ?thesis using fl by (simp add: reduce_def)
  next
    case (Suc j)
    then have half: "(l - f) div 2 = 2 ^ j" and whole: "2 * 2 ^ j = l - f"
      using assms(2) by simp_all
    have "reduce_rounds (2 ^ j) l D a (l - 1) = (\<Sum>c = l - 2 * 2 ^ j..<l. a c)"
      using reduce_rounds_pow2 [OF assms(1), of j l a] whole by simp
    moreover have "l - 2 * 2 ^ j = f" using whole fl by simp
    ultimately show ?thesis using fl half by (simp add: reduce_def sum_list_cells)
  qed
qed

subsection \<open>reduce: the claim\<close>

text \<open>
  C2, as the code has it. For every range whose length is a power of two (1, 2, 4, ...)
  and every tile extent, when \<open>reduce\<close> returns the last slot of the range holds the sum of
  all of the range's original elements, and the returned iterator refers to that slot.
\<close>

theorem reduce_power_of_two:
  fixes a :: "'a::comm_monoid_add array"
  assumes "0 < D" "l - f = 2 ^ k"
  shows "fst (reduce f l D a) = l - 1 \<and> snd (reduce f l D a) (l - 1) = sum_list (cells a f l)"
  using assms by (rule reduce_pow2)

theorem reduce_power_of_two_witness:
  "(0 :: nat) < 8 \<and> (8 :: nat) - 0 = 2 ^ 3
   \<and> fst (reduce 0 8 8 (array_of 0 [3, 1, 4, 1, 5, 9, 2, 6 :: int])) = 7
   \<and> snd (reduce 0 8 8 (array_of 0 [3, 1, 4, 1, 5, 9, 2, 6 :: int])) 7 = 31"
proof -
  have d: "(0 :: nat) < 8" and n: "(8 :: nat) - 0 = 2 ^ 3" by simp_all
  have s: "sum_list (cells (array_of 0 [3, 1, 4, 1, 5, 9, 2, 6 :: int]) 0 8) = 31"
    by code_simp
  show ?thesis
    using reduce_power_of_two [OF d n, of "array_of 0 [3, 1, 4, 1, 5, 9, 2, 6 :: int]"] d n s
    by simp
qed

text \<open>
  The claim as stated fails for a length that is not a power of two: on \<open>[1, 2, 4]\<close> the
  only round has \<open>m = 1\<close> and adds the second cell to the third; the first cell is never
  read, and the last slot holds 6, not 7.
\<close>

theorem reduce_three_counterexample:
  "snd (reduce 0 3 8 (array_of 0 [1, 2, 4 :: int])) (3 - 1) = 6
   \<and> sum_list (cells (array_of 0 [1, 2, 4 :: int]) 0 3) = 7
   \<and> snd (reduce 0 3 8 (array_of 0 [1, 2, 4 :: int])) (3 - 1)
       \<noteq> sum_list (cells (array_of 0 [1, 2, 4 :: int]) 0 3)"
  by code_simp

subsection \<open>Rows of the scan: reduce\_rows and scan\_rows\<close>

lemma reduce_rows_lane_sums:
  fixes h :: "'a::monoid_add heap"
  assumes "rg \<noteq> Row_sums R"
  shows "reduce_rows_lane R rg f l lane h (Row_sums R) r =
           (if r = lane \<and> lane < R
            then sum_list (cells (h rg) (f + lane * cols f l R) (min (f + lane * cols f l R + cols f l R) l))
            else h (Row_sums R) r)"
    and "x \<noteq> Row_sums R \<Longrightarrow> reduce_rows_lane R rg f l lane h x = h x"
proof -
  have m: "\<And>e. (if e \<le> l then e else l) = min e l" by (simp add: min_def)
  show "reduce_rows_lane R rg f l lane h (Row_sums R) r =
           (if r = lane \<and> lane < R
            then sum_list (cells (h rg) (f + lane * cols f l R) (min (f + lane * cols f l R + cols f l R) l))
            else h (Row_sums R) r)"
    by (simp add: reduce_rows_lane_def thread_local_new_def Let_def serial_accumulate_sum m)
  show "x \<noteq> Row_sums R \<Longrightarrow> reduce_rows_lane R rg f l lane h x = h x"
    by (simp add: reduce_rows_lane_def thread_local_new_def Let_def)
qed

lemma reduce_rows_upto:
  fixes h :: "'a::monoid_add heap"
  assumes "rg \<noteq> Row_sums R"
  shows "fold (reduce_rows_lane R rg f l) [0..<k] h (Row_sums R) r =
           (if r < k \<and> r < R
            then sum_list (cells (h rg) (f + r * cols f l R) (min (f + r * cols f l R + cols f l R) l))
            else h (Row_sums R) r)
         \<and> (\<forall>x. x \<noteq> Row_sums R \<longrightarrow> fold (reduce_rows_lane R rg f l) [0..<k] h x = h x)"
proof (induction k arbitrary: r)
  case 0
  show ?case by simp
next
  case (Suc k)
  define b where "b = fold (reduce_rows_lane R rg f l) [0..<k] h"
  have brg: "b rg = h rg" using Suc assms by (simp add: b_def)
  have bx: "\<And>x. x \<noteq> Row_sums R \<Longrightarrow> b x = h x" using Suc by (simp add: b_def)
  have brs: "\<And>r. b (Row_sums R) r =
           (if r < k \<and> r < R
            then sum_list (cells (h rg) (f + r * cols f l R) (min (f + r * cols f l R + cols f l R) l))
            else h (Row_sums R) r)"
    using Suc by (simp add: b_def)
  have step: "fold (reduce_rows_lane R rg f l) [0..<Suc k] h = reduce_rows_lane R rg f l k b"
    by (simp add: b_def)
  show ?case
    unfolding step
    using reduce_rows_lane_sums [OF assms, where f = f and l = l and lane = k and h = b] brg bx brs
    by (auto simp: less_Suc_eq)
qed

lemma reduce_rows_sums:
  fixes h :: "'a::monoid_add heap"
  assumes "rg \<noteq> Row_sums R" "R \<le> D"
  shows "reduce_rows R rg f l D h (Row_sums R) r =
           (if r < R
            then sum_list (cells (h rg) (f + r * cols f l R) (min (f + r * cols f l R + cols f l R) l))
            else h (Row_sums R) r)"
    and "x \<noteq> Row_sums R \<Longrightarrow> reduce_rows R rg f l D h x = h x"
  using reduce_rows_upto [OF assms(1), where f = f and l = l and k = D and h = h and r = r] assms(2)
  by (auto simp: reduce_rows_def)

lemma scan_row_loop_at:
  fixes a :: "'a::monoid_add array"
  shows "i \<le> l \<Longrightarrow> scan_row_loop k i l res a c =
     (if i \<le> c \<and> c < i + k \<and> c < l then res + sum_list (cells a i c) else a c)"
proof (induction k arbitrary: i res a)
  case 0
  show ?case by auto
next
  case (Suc k)
  show ?case
  proof (cases "i = l")
    case True
    then show ?thesis by auto
  next
    case False
    then have il: "i < l" "i + 1 \<le> l" using Suc.prems by simp_all
    have same: "cells (a(i := res)) (i + 1) c = cells a (i + 1) c"
      by (rule cells_cong) simp
    have unf: "scan_row_loop (Suc k) i l res a c = scan_row_loop k (i + 1) l (res + a i) (a(i := res)) c"
      using False by simp
    note ih = Suc.IH [OF il(2), of "res + a i" "a(i := res)"]
    show ?thesis
    proof (cases "i < c")
      case True
      have "cells a i c = a i # cells a (i + 1) c"
        using True by (simp add: cells_Cons)
      then show ?thesis unfolding unf ih same using True il by (simp add: add.assoc)
    next
      case False
      then show ?thesis unfolding unf ih same using il by auto
    qed
  qed
qed

subsection \<open>Rows of the scan: combining the phases\<close>

lemma cols_pos: "0 < cols f l R"
  unfolding cols_def using unat_padded_cols [of "of_nat (l - f)" "of_nat R"]
  by (metis odd_pos odd_Suc_div_two Suc_eq_plus1 even_Suc)

lemma scan_rows_lane_at:
  fixes h :: "'a::monoid_add heap"
  assumes "rs \<noteq> rg" "lane < R" "f + lane * cols f l R \<le> l"
  shows "scan_rows_lane R rg f l rs lane h rg c =
           (if f + lane * cols f l R \<le> c \<and> c < f + lane * cols f l R + cols f l R \<and> c < l
            then h rs lane + sum_list (cells (h rg) (f + lane * cols f l R) c)
            else h rg c)"
    and "x \<noteq> rg \<Longrightarrow> scan_rows_lane R rg f l rs lane h x = h x"
  using assms by (simp_all add: scan_rows_lane_def Let_def scan_row_loop_at)

lemma scan_rows_lane_idle: "\<not> lane < R \<Longrightarrow> scan_rows_lane R rg f l rs lane h = h"
  by (simp add: scan_rows_lane_def)

lemma row_of_cell:
  "0 < (C::nat) \<Longrightarrow> f + k * C \<le> c \<Longrightarrow> c < f + k * C + C \<Longrightarrow> (c - f) div C = k"
  by (rule div_nat_eqI) (simp_all add: mult.commute)

lemma scan_rows_upto:
  fixes h :: "'a::monoid_add heap"
  assumes "rs \<noteq> rg" "\<forall>r<R. f + r * cols f l R \<le> l"
  shows "fold (scan_rows_lane R rg f l rs) [0..<k] h rg c =
           (if f \<le> c \<and> c < f + min k R * cols f l R \<and> c < l
            then h rs ((c - f) div cols f l R)
                 + sum_list (cells (h rg) (f + (c - f) div cols f l R * cols f l R) c)
            else h rg c)
         \<and> (\<forall>x. x \<noteq> rg \<longrightarrow> fold (scan_rows_lane R rg f l rs) [0..<k] h x = h x)"
proof (induction k arbitrary: c)
  case 0
  show ?case by auto
next
  case (Suc k)
  let ?C = "cols f l R"
  define b where "b = fold (scan_rows_lane R rg f l rs) [0..<k] h"
  have bx: "\<And>x. x \<noteq> rg \<Longrightarrow> b x = h x" using Suc by (simp add: b_def)
  have brg: "\<And>c. b rg c =
           (if f \<le> c \<and> c < f + min k R * ?C \<and> c < l
            then h rs ((c - f) div ?C) + sum_list (cells (h rg) (f + (c - f) div ?C * ?C) c)
            else h rg c)"
    using Suc by (simp add: b_def)
  have step: "fold (scan_rows_lane R rg f l rs) [0..<Suc k] h = scan_rows_lane R rg f l rs k b"
    by (simp add: b_def)
  show ?case
  proof (cases "k < R")
    case False
    then have "min (Suc k) R = min k R" by simp
    then show ?thesis
      unfolding step scan_rows_lane_idle [OF False] using brg bx by simp
  next
    case True
    then have mins: "min k R = k" "min (Suc k) R = Suc k" by simp_all
    have start: "f + k * ?C \<le> l" using assms(2) True by simp
    note lane = scan_rows_lane_at [OF assms(1) True start, where h = b]
    have brs: "b rs k = h rs k" using bx assms(1) by simp
    have untouched: "cells (b rg) (f + k * ?C) c = cells (h rg) (f + k * ?C) c"
      by (rule cells_cong) (simp add: brg mins)
    show ?thesis
    proof (cases "f + k * ?C \<le> c \<and> c < f + k * ?C + ?C \<and> c < l")
      case in_row: True
      then have q: "(c - f) div ?C = k"
        using row_of_cell [OF cols_pos, where f = f and k = k and c = c] by simp
      have "f \<le> c \<and> c < f + Suc k * ?C \<and> c < l" using in_row by simp
      then show ?thesis
        unfolding step mins using lane in_row q brs untouched bx by simp
    next
      case False
      have "(f \<le> c \<and> c < f + Suc k * ?C \<and> c < l) = (f \<le> c \<and> c < f + k * ?C \<and> c < l)"
        using False by auto
      then show ?thesis
        unfolding step mins using lane(1) [of c] lane(2) False brg [of c] bx mins by simp
    qed
  qed
qed

lemma rows_prefix:
  fixes a :: "'a::monoid_add array"
  assumes "0 < C"
  shows "f + q * C \<le> l \<Longrightarrow>
     sum_list (map (\<lambda>r. sum_list (cells a (f + r * C) (min (f + r * C + C) l))) [0..<q])
       = sum_list (cells a f (f + q * C))"
proof (induction q)
  case 0
  show ?case by simp
next
  case (Suc q)
  then have le: "f + q * C \<le> l" and full: "min (f + q * C + C) l = f + q * C + C"
    by (simp_all add: add.commute add.left_commute)
  have "cells a f (f + Suc q * C) = cells a f (f + q * C) @ cells a (f + q * C) (f + q * C + C)"
    using cells_append [of f "f + q * C" "f + Suc q * C" a] by (simp add: add.commute add.left_commute)
  then show ?case using Suc.IH [OF le] full by simp
qed

lemma rows_combine:
  fixes h :: "'a::monoid_add heap"
  assumes "rs \<noteq> rg" "R \<le> D" "f \<le> l" "l - f \<le> R * cols f l R"
    and "\<forall>r<R. f + r * cols f l R \<le> l"
    and "\<forall>r<R. h rs r =
           sum_list (map (\<lambda>r'. sum_list (cells (h rg) (f + r' * cols f l R)
                                   (min (f + r' * cols f l R + cols f l R) l))) [0..<r])"
  shows "scan_rows R rg f l rs D h rg c =
           (if f \<le> c \<and> c < l then sum_list (cells (h rg) f c) else h rg c)"
    and "x \<noteq> rg \<Longrightarrow> scan_rows R rg f l rs D h x = h x"
proof -
  let ?C = "cols f l R"
  note upto = scan_rows_upto [OF assms(1) assms(5), where k = D and h = h]
  show "x \<noteq> rg \<Longrightarrow> scan_rows R rg f l rs D h x = h x"
    using upto by (simp add: scan_rows_def)
  show "scan_rows R rg f l rs D h rg c =
           (if f \<le> c \<and> c < l then sum_list (cells (h rg) f c) else h rg c)"
  proof (cases "f \<le> c \<and> c < l")
    case False
    then show ?thesis using upto [of c] by (auto simp: scan_rows_def)
  next
    case True
    define q where "q = (c - f) div ?C"
    have qle: "q * ?C \<le> c - f" by (simp add: q_def)
    have "c - f < l - f" using True by (simp add: diff_less_mono)
    then have "c - f < R * ?C" using assms(4) by (rule less_le_trans)
    then have qR: "q < R"
      unfolding q_def using cols_pos [of f l R] by (simp add: less_mult_imp_div_less mult.commute)
    have cR: "c < f + R * ?C"
      using \<open>c - f < R * ?C\<close> True by linarith
    have inside: "c < f + min D R * ?C"
      using cR assms(2) by (simp add: min_absorb2)
    have start: "f + q * ?C \<le> c" using qle True by linarith
    then have start_l: "f + q * ?C \<le> l" using True by simp
    have "scan_rows R rg f l rs D h rg c = h rs q + sum_list (cells (h rg) (f + q * ?C) c)"
      using upto [of c] True inside by (simp add: scan_rows_def q_def)
    also have "h rs q = sum_list (cells (h rg) f (f + q * ?C))"
      using assms(6) qR rows_prefix [OF cols_pos start_l, of "h rg"] by simp
    also have "sum_list (cells (h rg) f (f + q * ?C)) + sum_list (cells (h rg) (f + q * ?C) c)
        = sum_list (cells (h rg) f c)"
      using cells_append [of f "f + q * ?C" c "h rg"] start by simp
    finally show ?thesis using True by simp
  qed
qed

subsection \<open>scan\_sums and scan on an exactly tiled range\<close>

lemma scan_sums_prefix:
  fixes h :: "'a::monoid_add heap"
  assumes "rg \<noteq> Row_sums 8" "8 \<le> D" "f \<le> l" "l - f \<le> 8 * cols f l 8"
    and "\<forall>r<8. f + r * cols f l 8 \<le> l"
  shows "scan_sums rg f l D h rg c =
           (if f \<le> c \<and> c < l then sum_list (cells (h rg) f c) else h rg c)"
    and "x \<noteq> rg \<Longrightarrow> x \<noteq> Row_sums 8 \<Longrightarrow> scan_sums rg f l D h x = h x"
proof -
  let ?rs = "Row_sums 8"
  let ?C = "cols f l 8"
  define h1 where "h1 = reduce_rows 8 rg f l D h"
  define h2 where "h2 = h1(?rs := snd (serial_scan 0 8 (h1 ?rs)))"
  have unf: "scan_sums rg f l D h = scan_rows 8 rg f l ?rs D h2"
    by (simp add: scan_sums_def Let_def thread_local_new_def h1_def h2_def)
  have h1_rs: "\<And>r. r < 8 \<Longrightarrow> h1 ?rs r =
      sum_list (cells (h rg) (f + r * ?C) (min (f + r * ?C + ?C) l))"
    unfolding h1_def using reduce_rows_sums(1) [OF assms(1,2), where f = f and l = l and h = h] by simp
  have h1_x: "\<And>x. x \<noteq> ?rs \<Longrightarrow> h1 x = h x"
    unfolding h1_def by (rule reduce_rows_sums(2) [OF assms(1,2)])
  have h2_rg: "h2 rg = h rg"
    using assms(1) h1_x by (simp add: h2_def)
  have h2_x: "\<And>x. x \<noteq> ?rs \<Longrightarrow> h2 x = h x"
    using h1_x by (simp add: h2_def)
  have h2_rs: "\<forall>r<8. h2 ?rs r =
      sum_list (map (\<lambda>r'. sum_list (cells (h2 rg) (f + r' * ?C) (min (f + r' * ?C + ?C) l))) [0..<r])"
  proof (intro allI impI)
    fix r :: nat
    assume r: "r < 8"
    have "h2 ?rs r = sum_list (cells (h1 ?rs) 0 r)"
      using r by (simp add: h2_def serial_scan_at)
    also have "cells (h1 ?rs) 0 r =
        map (\<lambda>r'. sum_list (cells (h rg) (f + r' * ?C) (min (f + r' * ?C + ?C) l))) [0..<r]"
      unfolding cells_def [of "h1 ?rs"] using r h1_rs by (intro map_cong) simp_all
    finally show "h2 ?rs r =
      sum_list (map (\<lambda>r'. sum_list (cells (h2 rg) (f + r' * ?C) (min (f + r' * ?C + ?C) l))) [0..<r])"
      by (simp add: h2_rg)
  qed
  have ne: "?rs \<noteq> rg" using assms(1) by simp
  note comb = rows_combine [OF ne assms(2,3,4,5) h2_rs]
  show "scan_sums rg f l D h rg c =
           (if f \<le> c \<and> c < l then sum_list (cells (h rg) f c) else h rg c)"
    unfolding unf using comb(1) [of c] by (simp add: h2_rg)
  show "x \<noteq> rg \<Longrightarrow> x \<noteq> Row_sums 8 \<Longrightarrow> scan_sums rg f l D h x = h x"
    unfolding unf using comb(2) [of x] h2_x by simp
qed

lemma cols_64_8: "cols 0 64 8 = 9"
  by (simp add: cols_def padded_cols_def)

lemma scan_prefix:
  fixes h :: "'a::monoid_add heap"
  assumes "64 \<le> D" "rg \<noteq> Row_sums 64" "rg \<noteq> Row_sums 8" "f < l"
    and "l - f \<le> 64 * cols f l 64" "\<forall>r<64. f + r * cols f l 64 \<le> l"
  shows "fst (scan rg f l D h) = l - 1"
    and "snd (scan rg f l D h) rg c =
           (if f \<le> c \<and> c < l then sum_list (cells (h rg) f c) else h rg c)"
    and "x \<noteq> rg \<Longrightarrow> x \<noteq> Row_sums 64 \<Longrightarrow> x \<noteq> Row_sums 8 \<Longrightarrow> snd (scan rg f l D h) x = h x"
proof -
  let ?rs = "Row_sums 64"
  let ?C = "cols f l 64"
  define h1 where "h1 = reduce_rows 64 rg f l D h"
  define h2 where "h2 = scan_sums ?rs 0 64 D h1"
  have D8: "8 \<le> D" and RD: "64 \<le> D" using assms(1) by simp_all
  have rows: "(if D < 64 then D else 64) = 64" using assms(1) by simp
  have unf: "scan rg f l D h = (l - 1, scan_rows 64 rg f l ?rs D h2)"
    using assms(4) by (simp add: scan_def Let_def rows thread_local_new_def h1_def h2_def)
  show "fst (scan rg f l D h) = l - 1" by (simp add: unf)
  have h1_rs: "\<And>r. r < 64 \<Longrightarrow> h1 ?rs r =
      sum_list (cells (h rg) (f + r * ?C) (min (f + r * ?C + ?C) l))"
    unfolding h1_def using reduce_rows_sums(1) [OF assms(2) RD, where f = f and l = l and h = h] by simp
  have h1_x: "\<And>x. x \<noteq> ?rs \<Longrightarrow> h1 x = h x"
    unfolding h1_def by (rule reduce_rows_sums(2) [OF assms(2) RD])
  have inner1: "(64::nat) - 0 \<le> 8 * cols 0 64 8" by (simp add: cols_64_8)
  have inner2: "\<forall>r<8. 0 + r * cols 0 64 8 \<le> (64::nat)" by (simp add: cols_64_8)
  have ne8: "?rs \<noteq> Row_sums 8" by simp
  note inner = scan_sums_prefix [OF ne8 D8 _ inner1 inner2, where h = h1]
  have h2_rs: "\<And>r. r < 64 \<Longrightarrow> h2 ?rs r = sum_list (cells (h1 ?rs) 0 r)"
    unfolding h2_def using inner(1) by simp
  have h2_x: "\<And>x. x \<noteq> ?rs \<Longrightarrow> x \<noteq> Row_sums 8 \<Longrightarrow> h2 x = h x"
    unfolding h2_def using inner(2) h1_x by simp
  have h2_rg: "h2 rg = h rg" using h2_x assms(2,3) by simp
  have sums: "\<forall>r<64. h2 ?rs r =
      sum_list (map (\<lambda>r'. sum_list (cells (h2 rg) (f + r' * ?C) (min (f + r' * ?C + ?C) l))) [0..<r])"
  proof (intro allI impI)
    fix r :: nat
    assume r: "r < 64"
    have "cells (h1 ?rs) 0 r =
        map (\<lambda>r'. sum_list (cells (h rg) (f + r' * ?C) (min (f + r' * ?C + ?C) l))) [0..<r]"
      unfolding cells_def [of "h1 ?rs"] using r h1_rs by (intro map_cong) simp_all
    then show "h2 ?rs r =
      sum_list (map (\<lambda>r'. sum_list (cells (h2 rg) (f + r' * ?C) (min (f + r' * ?C + ?C) l))) [0..<r])"
      using h2_rs [OF r] by (simp add: h2_rg)
  qed
  have ne: "?rs \<noteq> rg" using assms(2) by simp
  have fl: "f \<le> l" using assms(4) by simp
  note comb = rows_combine [OF ne RD fl assms(5,6) sums]
  show "snd (scan rg f l D h) rg c =
           (if f \<le> c \<and> c < l then sum_list (cells (h rg) f c) else h rg c)"
    unfolding unf using comb(1) [of c] by (simp add: h2_rg)
  show "x \<noteq> rg \<Longrightarrow> x \<noteq> Row_sums 64 \<Longrightarrow> x \<noteq> Row_sums 8 \<Longrightarrow> snd (scan rg f l D h) x = h x"
    unfolding unf using comb(2) [of x] h2_x by simp
qed

subsection \<open>scan at a single cell\<close>



















subsection \<open>The scans: claims\<close>

lemma cols_64_64: "cols 0 64 64 = 1"
  by (simp add: cols_def padded_cols_def)

text \<open>
  \<open>serial_scan\<close> on every non-empty range: cell \<open>i\<close> receives the sum of the original
  cells before it, the first cell receives 0, and nothing outside the range changes.
\<close>

lemma serial_scan_exclusive:
  fixes a :: "'a::monoid_add array"
  assumes "f < l"
  shows "fst (serial_scan f l a) = l - 1"
    and "snd (serial_scan f l a) f = 0"
    and "f \<le> i \<Longrightarrow> i < l \<Longrightarrow> snd (serial_scan f l a) i = sum_list (cells a f i)"
    and "i < f \<or> l \<le> i \<Longrightarrow> snd (serial_scan f l a) i = a i"
  using assms by (auto simp: serial_scan_at) (simp add: serial_scan_def)

text \<open>The example of the specification: a tile of 8 lanes scans 8 cells.\<close>

lemma scan_example:
  "cells (snd (scan (Caller 0) 0 8 8 (heap_of 0 [3, 1, 4, 1, 5, 9, 2, 6 :: int])) (Caller 0)) 0 8
     = [0, 3, 4, 8, 9, 14, 23, 25]"
  by code_simp

text \<open>
  C3, at an input where the code departs from it. A tile of 8 lanes scans 9 cells: the
  quotient \<open>9 / 8 = 1\<close> is odd, so \<open>padded_cols\<close> keeps one column, the 8 rows cover 8
  cells, and the ninth cell keeps its input value 1 where the exclusive prefix sum is 8.
\<close>

theorem scan_leaves_cell_unscanned:
  "cells (snd (scan (Caller 0) 0 9 8 (heap_of 0 [1, 1, 1, 1, 1, 1, 1, 1, 1 :: int])) (Caller 0)) 0 9
     = [0, 1, 2, 3, 4, 5, 6, 7, 1]"
  by code_simp




text \<open>
  The operator overload of \<open>serial_scan\<close> on every non-empty range: the first cell receives
  the content of the uninitialised accumulator, and each later cell the operator applied to
  the cell before it and the original value there.
\<close>

lemma serial_scan_op_law:
  assumes "f < l"
  shows "snd (serial_scan_op garbage f l op a) f = garbage"
    and "f \<le> i \<Longrightarrow> Suc i < l \<Longrightarrow>
         snd (serial_scan_op garbage f l op a) (Suc i) = op (snd (serial_scan_op garbage f l op a) i) (a i)"
proof -
  have at: "\<And>i. snd (serial_scan_op garbage f l op a) i =
      (if f \<le> i \<and> i < l then foldl op garbage (cells a f i) else a i)"
    using assms by (simp add: serial_scan_op_def serial_scan_op_loop_at)
  show "snd (serial_scan_op garbage f l op a) f = garbage"
    using assms by (simp add: at)
  show "f \<le> i \<Longrightarrow> Suc i < l \<Longrightarrow>
         snd (serial_scan_op garbage f l op a) (Suc i) = op (snd (serial_scan_op garbage f l op a) i) (a i)"
    by (simp add: at cells_snoc)
qed

text \<open>
  C5, at an input where the code departs from it. \<open>serial_scan(f, l, op)\<close> has no identity
  parameter; with addition on \<open>[1, 2, 3]\<close> and an accumulator that happens to hold 7 the
  output starts with 7, not with the identity 0 of addition.
\<close>

theorem serial_scan_op_unseeded:
  "cells (snd (serial_scan_op 7 0 3 (+) (array_of 0 [1, 2, 3 :: int]))) 0 3 = [7, 8, 10]"
  by code_simp

text \<open>
  C6. For every empty range (\<open>f \<ge> l\<close>), \<open>reduce\<close>, \<open>serial_scan\<close>, its operator overload,
  \<open>scan\<close> and \<open>partition\<close> write nothing and return the end \<open>l\<close> of the range; \<open>partition\<close>
  does so under every schedule, without running a tile.
\<close>

theorem empty_range_untouched:
  assumes "f \<ge> l"
  shows "reduce f l D a = (l, a)
       \<and> serial_scan f l b = (l, b)
       \<and> serial_scan_op garbage f l op c = (l, c)
       \<and> scan rg f l D h = (l, h)
       \<and> partition sched junk f l p mem = Some (l, mem)"
  using assms
  by (simp add: reduce_def serial_scan_def serial_scan_op_def scan_def partition_def)

theorem empty_range_untouched_witness:
  "(7 :: nat) \<ge> 5
   \<and> reduce 7 5 8 (array_of 0 [1, 2, 3 :: int]) = (5, array_of 0 [1, 2, 3])
   \<and> serial_scan 7 5 (array_of 0 [1, 2, 3 :: int]) = (5, array_of 0 [1, 2, 3])
   \<and> serial_scan_op 0 7 5 (+) (array_of 0 [1, 2, 3 :: int]) = (5, array_of 0 [1, 2, 3])
   \<and> scan (Caller 0) 7 5 8 (heap_of 0 [1, 2, 3 :: int]) = (5, heap_of 0 [1, 2, 3])
   \<and> partition [0, 1] blank 7 5 even (array_of 0 [1, 2, 3 :: nat]) = Some (5, array_of 0 [1, 2, 3])"
proof -
  have e: "(7 :: nat) \<ge> 5" by simp
  show ?thesis
    using e empty_range_untouched [OF e, where D = 8 and a = "array_of 0 [1, 2, 3 :: int]"
      and b = "array_of 0 [1, 2, 3 :: int]" and garbage = 0 and op = "(+)"
      and c = "array_of 0 [1, 2, 3 :: int]" and rg = "Caller 0" and h = "heap_of 0 [1, 2, 3 :: int]"
      and sched = "[0, 1]" and junk = blank and p = even and mem = "array_of 0 [1, 2, 3 :: nat]"]
    by blast
qed

subsection \<open>partition: the flags and their scans\<close>

lemma SIMD_w_64 [simp]: "SIMD_w = 64"
  by (simp add: SIMD_w_def)

lemma p_regions [simp]:
  "p_true \<noteq> p_false" "p_false \<noteq> p_true"
  "p_true \<noteq> Row_sums k" "p_false \<noteq> Row_sums k"
  "Row_sums k \<noteq> p_true" "Row_sums k \<noteq> p_false"
  by (simp_all add: p_true_def p_false_def)

lemma flags_lane_at:
  "flags_lane p n g regs lane h p_true j =
     (if j = lane then (if valid n g lane then of_bool (p (regs lane)) else 0) else h p_true j)"
  "flags_lane p n g regs lane h p_false j =
     (if j = lane then (if valid n g lane then of_bool (\<not> p (regs lane)) else 0) else h p_false j)"
  "x \<noteq> p_true \<Longrightarrow> x \<noteq> p_false \<Longrightarrow> flags_lane p n g regs lane h x = h x"
  by (simp_all add: flags_lane_def Let_def)

lemma flags_upto:
  "fold (flags_lane p n g regs) [0..<k] h p_true j =
     (if j < k then (if valid n g j then of_bool (p (regs j)) else 0) else h p_true j)
   \<and> fold (flags_lane p n g regs) [0..<k] h p_false j =
     (if j < k then (if valid n g j then of_bool (\<not> p (regs j)) else 0) else h p_false j)"
proof (induction k arbitrary: j)
  case 0
  show ?case by simp
next
  case (Suc k)
  define b where "b = fold (flags_lane p n g regs) [0..<k] h"
  have step: "fold (flags_lane p n g regs) [0..<Suc k] h = flags_lane p n g regs k b"
    by (simp add: b_def)
  have ih: "\<And>j. b p_true j = (if j < k then (if valid n g j then of_bool (p (regs j)) else 0) else h p_true j)"
    "\<And>j. b p_false j = (if j < k then (if valid n g j then of_bool (\<not> p (regs j)) else 0) else h p_false j)"
    using Suc by (simp_all add: b_def)
  show ?case
    unfolding step flags_lane_at(1,2) ih by (auto simp: less_Suc_eq)
qed

lemma sum_flags_count:
  "sum_list (map (\<lambda>j. if V j then of_bool (P j) else (0 :: u32)) [0..<k])
     = of_nat (length (filter (\<lambda>j. V j \<and> P j) [0..<k]))"
  by (induction k) simp_all

lemma count_phase:
  fixes h :: "u32 heap"
  assumes "lane < 64"
  shows "scan_flags p n g regs h p_true lane = of_nat (trues_before p n g regs lane)"
    and "scan_flags p n g regs h p_false lane = of_nat (falses_before p n g regs lane)"
proof -
  define h1 where "h1 = fold (flags_lane p n g regs) [0..<SIMD_w] h"
  define h2 where "h2 = snd (scan p_true 0 SIMD_w SIMD_w h1)"
  define h3 where "h3 = snd (scan p_false 0 SIMD_w SIMD_w h2)"
  have unf: "scan_flags p n g regs h = h3"
    by (simp add: scan_flags_def Let_def h1_def h2_def h3_def)
  have geo: "(64::nat) \<le> 64" "(0::nat) < 64" "(64::nat) - 0 \<le> 64 * cols 0 64 64"
    "\<forall>r<64. 0 + r * cols 0 64 64 \<le> (64::nat)"
    by (simp_all add: cols_64_64)
  note sc = scan_prefix [OF geo(1) _ _ geo(2,3,4)]
  have t1: "\<And>c. h2 p_true c = (if c < 64 then sum_list (cells (h1 p_true) 0 c) else h1 p_true c)"
    unfolding h2_def using sc(2) [of p_true h1] by simp
  have f1: "h2 p_false = h1 p_false"
    unfolding h2_def using sc(3) [of p_true p_false h1] by simp
  have f2: "\<And>c. h3 p_false c = (if c < 64 then sum_list (cells (h2 p_false) 0 c) else h2 p_false c)"
    unfolding h3_def using sc(2) [of p_false h2] by simp
  have t2: "h3 p_true = h2 p_true"
    unfolding h3_def using sc(3) [of p_false p_true h2] by simp
  have ct: "cells (h1 p_true) 0 lane = map (\<lambda>j. if valid n g j then of_bool (p (regs j)) else 0) [0..<lane]"
    unfolding cells_def h1_def using assms flags_upto [of p n g regs 64 h]
    by (intro map_cong) simp_all
  have cf: "cells (h1 p_false) 0 lane = map (\<lambda>j. if valid n g j then of_bool (\<not> p (regs j)) else 0) [0..<lane]"
    unfolding cells_def h1_def using assms flags_upto [of p n g regs 64 h]
    by (intro map_cong) simp_all
  show "scan_flags p n g regs h p_true lane = of_nat (trues_before p n g regs lane)"
    unfolding unf using assms by (simp add: t2 t1 ct sum_flags_count trues_before_def)
  show "scan_flags p n g regs h p_false lane = of_nat (falses_before p n g regs lane)"
    unfolding unf using assms by (simp add: f2 f1 cf sum_flags_count falses_before_def)
qed

subsection \<open>partition: runs handed out by the cursors\<close>

lemma sum_update_one:
  fixes u :: "nat \<Rightarrow> nat"
  assumes "g < G"
  shows "(\<Sum>g'<G. (u(g := x)) g') + u g = (\<Sum>g'<G. u g') + x"
proof -
  have fin: "finite {..<G}" and mem: "g \<in> {..<G}" using assms by simp_all
  have a: "(\<Sum>g'<G. (u(g := x)) g') = x + (\<Sum>g'\<in>{..<G} - {g}. (u(g := x)) g')"
    using sum.remove [OF fin mem, of "u(g := x)"] by simp
  have b: "(\<Sum>g'\<in>{..<G} - {g}. (u(g := x)) g') = (\<Sum>g'\<in>{..<G} - {g}. u g')"
    by (rule sum.cong) simp_all
  have c: "(\<Sum>g'<G. u g') = u g + (\<Sum>g'\<in>{..<G} - {g}. u g')"
    using sum.remove [OF fin mem, of u] by simp
  show ?thesis unfolding a b c by simp
qed

lemma slot_len_update:
  "(\<lambda>g'. slot_len ((W(g := w)) g')) = (\<lambda>g'. slot_len (W g'))(g := slot_len w)"
  by (rule ext) simp

lemma slot_len_simps [simp]: "slot_len None = 0" "slot_len (Some (b, k)) = k"
  by (simp_all add: slot_len_def)

lemma runs_below_extend:
  assumes "runs_below G c W" "g < G" "W g = None"
  shows "runs_below G (c + k) (W(g := Some (c, k)))"
proof -
  have old_total: "c = (\<Sum>g'<G. slot_len (W g'))"
    using assms(1) by (simp add: runs_below_def)
  have total: "c + k = (\<Sum>g'<G. slot_len ((W(g := Some (c, k))) g'))"
    unfolding slot_len_update
    using sum_update_one [OF assms(2), of "\<lambda>g'. slot_len (W g')" "slot_len (Some (c, k))"]
      assms(3) old_total by simp
  have ends: "\<forall>g' b k'. (W(g := Some (c, k))) g' = Some (b, k') \<longrightarrow> b + k' \<le> c + k"
    using assms(1) by (auto simp: runs_below_def split: if_splits) fastforce
  have apart: "\<forall>g1 g2 b1 k1 b2 k2. g1 \<noteq> g2 \<and> (W(g := Some (c, k))) g1 = Some (b1, k1)
        \<and> (W(g := Some (c, k))) g2 = Some (b2, k2) \<longrightarrow> b1 + k1 \<le> b2 \<or> b2 + k2 \<le> b1"
  proof (intro allI impI)
    fix g1 g2 b1 k1 b2 k2
    assume h: "g1 \<noteq> g2 \<and> (W(g := Some (c, k))) g1 = Some (b1, k1)
        \<and> (W(g := Some (c, k))) g2 = Some (b2, k2)"
    have old_end: "\<And>g' b k'. W g' = Some (b, k') \<Longrightarrow> b + k' \<le> c"
      using assms(1) by (auto simp: runs_below_def)
    have old_apart: "\<And>g1 g2 b1 k1 b2 k2. g1 \<noteq> g2 \<Longrightarrow> W g1 = Some (b1, k1) \<Longrightarrow> W g2 = Some (b2, k2)
        \<Longrightarrow> b1 + k1 \<le> b2 \<or> b2 + k2 \<le> b1"
      using assms(1) unfolding runs_below_def by blast
    show "b1 + k1 \<le> b2 \<or> b2 + k2 \<le> b1"
    proof (cases "g1 = g")
      case True
      then have "b1 = c" "W g2 = Some (b2, k2)" using h by auto
      then show ?thesis using old_end [of g2 b2 k2] by simp
    next
      case False
      then have w1: "W g1 = Some (b1, k1)" using h by simp
      show ?thesis
      proof (cases "g2 = g")
        case True
        then have "b2 = c" using h by auto
        then show ?thesis using old_end [OF w1] by simp
      next
        case False
        then have "W g2 = Some (b2, k2)" using h by simp
        then show ?thesis using old_apart [OF _ w1] h by blast
      qed
    qed
  qed
  have cover: "\<forall>i<c + k. \<exists>g' b k'. (W(g := Some (c, k))) g' = Some (b, k') \<and> b \<le> i \<and> i < b + k'"
  proof (intro allI impI)
    fix i
    assume i: "i < c + k"
    show "\<exists>g' b k'. (W(g := Some (c, k))) g' = Some (b, k') \<and> b \<le> i \<and> i < b + k'"
    proof (cases "i < c")
      case True
      then obtain g' b k' where w: "W g' = Some (b, k')" "b \<le> i" "i < b + k'"
        using assms(1) unfolding runs_below_def by blast
      then have "g' \<noteq> g" using assms(3) by auto
      then have "(W(g := Some (c, k))) g' = Some (b, k')" using w by simp
      then show ?thesis using w by blast
    next
      case False
      then have "(W(g := Some (c, k))) g = Some (c, k) \<and> c \<le> i \<and> i < c + k" using i by simp
      then show ?thesis by blast
    qed
  qed
  show ?thesis
    unfolding runs_below_def using total ends apart cover by simp
qed


lemma runs_above_extend:
  assumes "runs_above n G c W" "g < G" "W g = None" "k \<le> c"
  shows "runs_above n G (c - k) (W(g := Some (c - k, k)))"
proof -
  have old_total: "c + (\<Sum>g'<G. slot_len (W g')) = n"
    using assms(1) by (simp add: runs_above_def)
  have old_in: "\<And>g' b k'. W g' = Some (b, k') \<Longrightarrow> c \<le> b \<and> b + k' \<le> n"
    using assms(1) unfolding runs_above_def by blast
  have old_apart: "\<And>g1 g2 b1 k1 b2 k2. g1 \<noteq> g2 \<Longrightarrow> W g1 = Some (b1, k1) \<Longrightarrow> W g2 = Some (b2, k2)
      \<Longrightarrow> b1 + k1 \<le> b2 \<or> b2 + k2 \<le> b1"
    using assms(1) unfolding runs_above_def by blast
  have old_cover: "\<And>i. c \<le> i \<Longrightarrow> i < n \<Longrightarrow> \<exists>g' b k'. W g' = Some (b, k') \<and> b \<le> i \<and> i < b + k'"
    using assms(1) unfolding runs_above_def by blast
  have cn: "c \<le> n" using old_total by simp
  have "(\<Sum>g'<G. slot_len ((W(g := Some (c - k, k))) g')) = (\<Sum>g'<G. slot_len (W g')) + k"
    unfolding slot_len_update
    using sum_update_one [OF assms(2), of "\<lambda>g'. slot_len (W g')" "slot_len (Some (c - k, k))"]
      assms(3) by simp
  then have total: "(c - k) + (\<Sum>g'<G. slot_len ((W(g := Some (c - k, k))) g')) = n"
    using old_total assms(4) by simp
  have inside: "\<forall>g' b k'. (W(g := Some (c - k, k))) g' = Some (b, k') \<longrightarrow> c - k \<le> b \<and> b + k' \<le> n"
  proof (intro allI impI)
    fix g' b k'
    assume h: "(W(g := Some (c - k, k))) g' = Some (b, k')"
    show "c - k \<le> b \<and> b + k' \<le> n"
    proof (cases "g' = g")
      case True
      then have "b = c - k" "k' = k" using h by auto
      then show ?thesis using assms(4) cn by simp
    next
      case False
      then have "W g' = Some (b, k')" using h by simp
      then show ?thesis using old_in [of g' b k'] by auto
    qed
  qed
  have apart: "\<forall>g1 g2 b1 k1 b2 k2. g1 \<noteq> g2 \<and> (W(g := Some (c - k, k))) g1 = Some (b1, k1)
        \<and> (W(g := Some (c - k, k))) g2 = Some (b2, k2) \<longrightarrow> b1 + k1 \<le> b2 \<or> b2 + k2 \<le> b1"
  proof (intro allI impI)
    fix g1 g2 b1 k1 b2 k2
    assume h: "g1 \<noteq> g2 \<and> (W(g := Some (c - k, k))) g1 = Some (b1, k1)
        \<and> (W(g := Some (c - k, k))) g2 = Some (b2, k2)"
    show "b1 + k1 \<le> b2 \<or> b2 + k2 \<le> b1"
    proof (cases "g1 = g")
      case True
      then have "b1 = c - k" "k1 = k" "W g2 = Some (b2, k2)" using h by auto
      then show ?thesis using old_in [of g2 b2 k2] assms(4) by simp
    next
      case False
      then have w1: "W g1 = Some (b1, k1)" using h by simp
      show ?thesis
      proof (cases "g2 = g")
        case True
        then have "b2 = c - k" "k2 = k" using h by auto
        then show ?thesis using old_in [OF w1] assms(4) by simp
      next
        case False
        then have "W g2 = Some (b2, k2)" using h by simp
        then show ?thesis using old_apart [OF _ w1] h by blast
      qed
    qed
  qed
  have cover: "\<forall>i. c - k \<le> i \<and> i < n \<longrightarrow>
      (\<exists>g' b k'. (W(g := Some (c - k, k))) g' = Some (b, k') \<and> b \<le> i \<and> i < b + k')"
  proof (intro allI impI)
    fix i
    assume i: "c - k \<le> i \<and> i < n"
    show "\<exists>g' b k'. (W(g := Some (c - k, k))) g' = Some (b, k') \<and> b \<le> i \<and> i < b + k'"
    proof (cases "c \<le> i")
      case True
      then obtain g' b k' where w: "W g' = Some (b, k')" "b \<le> i" "i < b + k'"
        using old_cover i by blast
      then have "g' \<noteq> g" using assms(3) by auto
      then have "(W(g := Some (c - k, k))) g' = Some (b, k')" using w by simp
      then show ?thesis using w by blast
    next
      case False
      then have "(W(g := Some (c - k, k))) g = Some (c - k, k) \<and> c - k \<le> i \<and> i < c - k + k"
        using i assms(4) by simp
      then show ?thesis by blast
    qed
  qed
  show ?thesis
    unfolding runs_above_def using total inside apart cover by simp
qed

lemma count_below: "length (filter (\<lambda>j. j < m) [0..<k]) = min k m"
  by (induction k) auto

lemma valid_lanes_min: "valid_lanes n g = min 64 (n - g * 64)"
proof -
  have "valid n g = (\<lambda>j. j < n - g * 64)"
    by (rule ext) (auto simp: valid_def)
  then show ?thesis by (simp add: valid_lanes_def count_below)
qed

lemma valid_lanes_upto: "(\<Sum>g<G. valid_lanes n g) = min n (G * 64)"
  by (induction G) (auto simp: valid_lanes_min min_def)

lemma valid_lanes_total: "(\<Sum>g<tile_count n. valid_lanes n g) = n"
proof -
  have "n \<le> tile_count n * 64"
    unfolding tile_count_def by (simp add: SIMD_w_def)
  then show ?thesis by (simp add: valid_lanes_upto)
qed

lemma trues_falses_valid:
  "trues_before p n g regs k + falses_before p n g regs k = length (filter (valid n g) [0..<k])"
  by (induction k) (auto simp: trues_before_def falses_before_def)

lemma trues_falses_lanes:
  "trues_before p n g regs 64 + falses_before p n g regs 64 = valid_lanes n g"
  by (simp add: trues_falses_valid valid_lanes_def)

lemma trues_le_valid: "trues_before p n g regs 64 \<le> valid_lanes n g"
  using trues_falses_lanes [of p n g regs] by simp

lemma falses_le_valid: "falses_before p n g regs 64 \<le> valid_lanes n g"
  using trues_falses_lanes [of p n g regs] by simp

lemma valid_le_64: "valid_lanes n g \<le> 64"
  by (simp add: valid_lanes_min)

subsection \<open>partition: phases of a tile\<close>

lemma before_Suc:
  "trues_before p n g regs (Suc k) = trues_before p n g regs k + (if valid n g k \<and> p (regs k) then 1 else 0)"
  "falses_before p n g regs (Suc k) = falses_before p n g regs k + (if valid n g k \<and> \<not> p (regs k) then 1 else 0)"
  by (simp_all add: trues_before_def falses_before_def)

lemma offsets_scanned:
  assumes "scanned p n g t"
  shows "true_off p n g t = of_nat (trues_before p n g (tmp t) 64)"
    and "false_off p n g t = of_nat (falses_before p n g (tmp t) 64)"
proof -
  have l: "shared t p_true 63 = of_nat (trues_before p n g (tmp t) 63)"
    "shared t p_false 63 = of_nat (falses_before p n g (tmp t) 63)"
    using assms by (simp_all add: scanned_def)
  have s: "(64::nat) = Suc 63" by simp
  show "true_off p n g t = of_nat (trues_before p n g (tmp t) 64)"
    unfolding s before_Suc by (simp add: true_off_def l)
  show "false_off p n g t = of_nat (falses_before p n g (tmp t) 64)"
    unfolding s before_Suc by (simp add: false_off_def l)
qed

lemma unat_small: "k \<le> n \<Longrightarrow> n < 2 ^ 32 \<Longrightarrow> unat (of_nat k :: u32) = k"
  by (simp add: unat_of_nat)

lemma unat_offsets:
  assumes "scanned p n g t"
  shows "unat (true_off p n g t) = trues_before p n g (tmp t) 64"
    and "unat (false_off p n g t) = falses_before p n g (tmp t) 64"
proof -
  have "trues_before p n g (tmp t) 64 \<le> 64" "falses_before p n g (tmp t) 64 \<le> 64"
    using trues_le_valid [of p n g "tmp t"] falses_le_valid [of p n g "tmp t"] valid_le_64 [of n g]
    by simp_all
  then show "unat (true_off p n g t) = trues_before p n g (tmp t) 64"
    and "unat (false_off p n g t) = falses_before p n g (tmp t) 64"
    using offsets_scanned [OF assms] unat_small [of _ 64] by simp_all
qed

lemma step_other: "g' \<noteq> g \<Longrightarrow> tiles (step f n p g s) g' = tiles s g'"
  by (simp add: step_def Let_def split: pc.split prod.split)

lemma true_slot_bound: "(\<Sum>g<tile_count n. slot_len (true_slot p n s g)) \<le> n"
proof -
  have "(\<Sum>g<tile_count n. slot_len (true_slot p n s g)) \<le> (\<Sum>g<tile_count n. valid_lanes n g)"
    by (rule sum_mono) (simp add: true_slot_def trues_le_valid)
  then show ?thesis by (simp add: valid_lanes_total)
qed

lemma false_slot_bound: "(\<Sum>g<tile_count n. slot_len (false_slot p n s g)) \<le> n"
proof -
  have "(\<Sum>g<tile_count n. slot_len (false_slot p n s g)) \<le> (\<Sum>g<tile_count n. valid_lanes n g)"
    by (rule sum_mono) (simp add: false_slot_def falses_le_valid)
  then show ?thesis by (simp add: valid_lanes_total)
qed

lemma reserved_counted: "reserved_true c \<Longrightarrow> counted c" "reserved c \<Longrightarrow> reserved_true c"
  by (cases c; simp)+

text \<open>A phase that moves neither cursor and leaves what the tiles have reserved as it is.\<close>

lemma cursors_inv_quiet:
  assumes inv: "cursors_inv p n s"
    and cnt: "counters s' = counters s"
    and other: "\<And>g'. g' \<noteq> g \<Longrightarrow> tiles s' g' = tiles s g'"
    and rt: "reserved_true (at (tiles s' g)) = reserved_true (at (tiles s g))"
    and rf: "reserved (at (tiles s' g)) = reserved (at (tiles s g))"
    and same: "reserved_true (at (tiles s g)) \<Longrightarrow>
        tmp (tiles s' g) = tmp (tiles s g) \<and> true_idx (tiles s' g) = true_idx (tiles s g)
        \<and> false_idx (tiles s' g) = false_idx (tiles s g)"
    and sc: "counted (at (tiles s' g)) \<Longrightarrow> g < tile_count n \<Longrightarrow> scanned p n g (tiles s' g)"
  shows "cursors_inv p n s'"
proof -
  have ts: "true_slot p n s' = true_slot p n s"
  proof (rule ext)
    fix g'
    show "true_slot p n s' g' = true_slot p n s g'"
      using other [of g'] rt same by (cases "g' = g") (auto simp: true_slot_def)
  qed
  have fs: "false_slot p n s' = false_slot p n s"
  proof (rule ext)
    fix g'
    show "false_slot p n s' g' = false_slot p n s g'"
      using other [of g'] rf same reserved_counted(2) by (cases "g' = g") (auto simp: false_slot_def)
  qed
  have loc: "\<forall>g'<tile_count n. counted (at (tiles s' g')) \<longrightarrow> scanned p n g' (tiles s' g')"
  proof (intro allI impI)
    fix g'
    assume "g' < tile_count n" "counted (at (tiles s' g'))"
    then show "scanned p n g' (tiles s' g')"
      using other [of g'] sc inv by (cases "g' = g") (auto simp: cursors_inv_def)
  qed
  show ?thesis
    using inv loc by (simp add: cursors_inv_def ts fs cnt)
qed


lemma scanned_cong:
  "tmp t' = tmp t \<Longrightarrow> shared t' = shared t \<Longrightarrow> scanned p n g t' = scanned p n g t"
  by (simp add: scanned_def)

lemma step_Load:
  "at (tiles s g) = Load \<Longrightarrow> step f n p g s =
     s\<lparr>tiles := (tiles s)(g := (tiles s g)\<lparr>at := Release_own,
          tmp := (\<lambda>lane. if valid n g lane then memory s (f + (g * SIMD_w + lane)) else 0)\<rparr>)\<rparr>"
  by (simp add: step_def Let_def)

lemma step_Release_own:
  "at (tiles s g) = Release_own \<Longrightarrow> step f n p g s =
     s\<lparr>blocks := release_block (blocks s) g, tiles := (tiles s)(g := (tiles s g)\<lparr>at := Count\<rparr>)\<rparr>"
  by (simp add: step_def Let_def)

lemma step_Count:
  "at (tiles s g) = Count \<Longrightarrow> step f n p g s =
     s\<lparr>tiles := (tiles s)(g := (tiles s g)\<lparr>at := Reserve_true,
          shared := scan_flags p n g (tmp (tiles s g)) (shared (tiles s g))\<rparr>)\<rparr>"
  by (simp add: step_def Let_def)

lemma step_Reserve_true:
  "at (tiles s g) = Reserve_true \<Longrightarrow> step f n p g s =
     s\<lparr>counters := (fst (counters s) + true_off p n g (tiles s g), snd (counters s)),
       tiles := (tiles s)(g := (tiles s g)\<lparr>at := Reserve_false, true_idx := fst (counters s)\<rparr>)\<rparr>"
  by (simp add: step_def Let_def)

lemma step_Reserve_false:
  "at (tiles s g) = Reserve_false \<Longrightarrow> step f n p g s =
     s\<lparr>counters := (fst (counters s), snd (counters s) - false_off p n g (tiles s g)),
       tiles := (tiles s)(g := (tiles s g)\<lparr>at := Acquire_true,
          false_idx := snd (counters s) - false_off p n g (tiles s g), unlocked := 0\<rparr>)\<rparr>"
  by (simp add: step_def Let_def)

lemma step_Acquire_true:
  assumes "at (tiles s g) = Acquire_true"
  shows "blocks s (unat (true_idx (tiles s g) div of_nat SIMD_w)) = unlocked (tiles s g) \<Longrightarrow>
       step f n p g s =
         s\<lparr>blocks := (blocks s)(unat (true_idx (tiles s g) div of_nat SIMD_w) := 1),
           tiles := (tiles s)(g := (tiles s g)\<lparr>at := Write_true\<rparr>)\<rparr>"
    and "blocks s (unat (true_idx (tiles s g) div of_nat SIMD_w)) \<noteq> unlocked (tiles s g) \<Longrightarrow>
       step f n p g s =
         s\<lparr>tiles := (tiles s)(g := (tiles s g)\<lparr>at := Acquire_true,
              unlocked := blocks s (unat (true_idx (tiles s g) div of_nat SIMD_w))\<rparr>)\<rparr>"
  using assms by (simp_all add: step_def Let_def atomic_compare_exchange_def)

lemma step_Write_true:
  "at (tiles s g) = Write_true \<Longrightarrow> step f n p g s =
     s\<lparr>memory := fold (write_true_lane f p n g (tiles s g)) [0..<SIMD_w] (memory s),
       tiles := (tiles s)(g := (tiles s g)\<lparr>at := Release_true\<rparr>)\<rparr>"
  by (simp add: step_def Let_def)

lemma step_Release_true:
  "at (tiles s g) = Release_true \<Longrightarrow> step f n p g s =
     s\<lparr>blocks := release_block (blocks s) (unat (true_idx (tiles s g) div of_nat SIMD_w)),
       tiles := (tiles s)(g := (tiles s g)\<lparr>at := Acquire_false, unlocked := 0\<rparr>)\<rparr>"
  by (simp add: step_def Let_def)

lemma step_Acquire_false:
  assumes "at (tiles s g) = Acquire_false"
  shows "blocks s (unat (false_idx (tiles s g) div of_nat SIMD_w)) = unlocked (tiles s g) \<Longrightarrow>
       step f n p g s =
         s\<lparr>blocks := (blocks s)(unat (false_idx (tiles s g) div of_nat SIMD_w) := 1),
           tiles := (tiles s)(g := (tiles s g)\<lparr>at := Write_false\<rparr>)\<rparr>"
    and "blocks s (unat (false_idx (tiles s g) div of_nat SIMD_w)) \<noteq> unlocked (tiles s g) \<Longrightarrow>
       step f n p g s =
         s\<lparr>tiles := (tiles s)(g := (tiles s g)\<lparr>at := Acquire_false,
              unlocked := blocks s (unat (false_idx (tiles s g) div of_nat SIMD_w))\<rparr>)\<rparr>"
  using assms by (simp_all add: step_def Let_def atomic_compare_exchange_def)

lemma step_Write_false:
  "at (tiles s g) = Write_false \<Longrightarrow> step f n p g s =
     s\<lparr>memory := fold (write_false_lane f p n g (tiles s g)) [0..<SIMD_w] (memory s),
       tiles := (tiles s)(g := (tiles s g)\<lparr>at := Release_false\<rparr>)\<rparr>"
  by (simp add: step_def Let_def)

lemma step_Release_false:
  "at (tiles s g) = Release_false \<Longrightarrow> step f n p g s =
     s\<lparr>blocks := release_block (blocks s) (unat (false_idx (tiles s g) div of_nat SIMD_w)),
       tiles := (tiles s)(g := (tiles s g)\<lparr>at := Done\<rparr>)\<rparr>"
  by (simp add: step_def Let_def)

lemma step_Done: "at (tiles s g) = Done \<Longrightarrow> step f n p g s = s"
  by (simp add: step_def Let_def)

lemma cursors_inv_reserve_true:
  assumes inv: "cursors_inv p n s" and g: "g < tile_count n" and n: "n < 2 ^ 32"
    and at: "at (tiles s g) = Reserve_true"
  shows "cursors_inv p n (step f n p g s)"
proof -
  let ?G = "tile_count n"
  let ?t = "tiles s g"
  let ?T = "trues_before p n g (tmp ?t) 64"
  let ?c = "unat (fst (counters s))"
  define s' where "s' = step f n p g s"
  have s': "s' = s\<lparr>counters := (fst (counters s) + true_off p n g ?t, snd (counters s)),
       tiles := (tiles s)(g := ?t\<lparr>at := Reserve_false, true_idx := fst (counters s)\<rparr>)\<rparr>"
    unfolding s'_def using at by (rule step_Reserve_true)
  have sc: "scanned p n g ?t" using inv g at by (simp add: cursors_inv_def)
  have below: "runs_below ?G ?c (true_slot p n s)" and above: "runs_above n ?G (unat (snd (counters s))) (false_slot p n s)"
    using inv by (simp_all add: cursors_inv_def)
  have none: "true_slot p n s g = None" using at by (simp add: true_slot_def)
  have ts: "true_slot p n s' = (true_slot p n s)(g := Some (?c, ?T))"
    by (rule ext) (simp add: true_slot_def s' g)
  have fs: "false_slot p n s' = false_slot p n s"
    by (rule ext) (simp add: false_slot_def s' at)
  note ext_runs = runs_below_extend [OF below g none, of ?T]
  have "?c + ?T = (\<Sum>g'<?G. slot_len (true_slot p n s' g'))"
    using ext_runs by (simp add: runs_below_def ts)
  then have "?c + ?T \<le> n" using true_slot_bound [where n = n and p = p and s = s'] by simp
  then have "?c + unat (true_off p n g ?t) < 2 ^ 32"
    using n unat_offsets(1) [OF sc] by simp
  then have cur: "unat (fst (counters s')) = ?c + ?T"
    using unat_add_lem [of "fst (counters s)" "true_off p n g ?t"] unat_offsets(1) [OF sc]
    by (simp add: s')
  have loc: "\<forall>g'<?G. counted (at (tiles s' g')) \<longrightarrow> scanned p n g' (tiles s' g')"
  proof (intro allI impI)
    fix g'
    assume h: "g' < ?G" "counted (at (tiles s' g'))"
    show "scanned p n g' (tiles s' g')"
    proof (cases "g' = g")
      case True
      have "scanned p n g (tiles s' g) = scanned p n g ?t"
        by (rule scanned_cong) (simp_all add: s')
      then show ?thesis using sc True by simp
    next
      case False
      then have "tiles s' g' = tiles s g'" by (simp add: s')
      then show ?thesis using inv h by (simp add: cursors_inv_def)
    qed
  qed
  have "snd (counters s') = snd (counters s)" by (simp add: s')
  then have "cursors_inv p n s'"
    unfolding cursors_inv_def using loc ext_runs above by (simp add: ts fs cur)
  then show ?thesis by (simp add: s'_def)
qed

subsection \<open>partition: what holds of the cursors under every schedule\<close>

lemma cursors_inv_reserve_false:
  assumes inv: "cursors_inv p n s" and g: "g < tile_count n" and n: "n < 2 ^ 32"
    and at: "at (tiles s g) = Reserve_false"
  shows "cursors_inv p n (step f n p g s)"
proof -
  let ?G = "tile_count n"
  let ?t = "tiles s g"
  let ?F = "falses_before p n g (tmp ?t) 64"
  let ?c = "unat (snd (counters s))"
  define s' where "s' = step f n p g s"
  have s': "s' = s\<lparr>counters := (fst (counters s), snd (counters s) - false_off p n g ?t),
       tiles := (tiles s)(g := ?t\<lparr>at := Acquire_true,
          false_idx := snd (counters s) - false_off p n g ?t, unlocked := 0\<rparr>)\<rparr>"
    unfolding s'_def using at by (rule step_Reserve_false)
  have sc: "scanned p n g ?t" using inv g at by (simp add: cursors_inv_def)
  have below: "runs_below ?G (unat (fst (counters s))) (true_slot p n s)"
    and above: "runs_above n ?G ?c (false_slot p n s)"
    using inv by (simp_all add: cursors_inv_def)
  have none: "false_slot p n s g = None" using at by (simp add: false_slot_def)
  have total: "?c + (\<Sum>g'<?G. slot_len (false_slot p n s g')) = n"
    using above by (simp add: runs_above_def)
  have upd: "\<And>b. (\<Sum>g'<?G. slot_len (((false_slot p n s)(g := Some (b, ?F))) g'))
      = (\<Sum>g'<?G. slot_len (false_slot p n s g')) + ?F"
    unfolding slot_len_update
    using sum_update_one [OF g, of "\<lambda>g'. slot_len (false_slot p n s g')"] none by simp
  have fs: "false_slot p n s' = (false_slot p n s)(g := Some (unat (false_idx (tiles s' g)), ?F))"
    by (rule ext) (simp add: false_slot_def s' g)
  have "(\<Sum>g'<?G. slot_len (false_slot p n s' g')) \<le> n"
    by (rule false_slot_bound)
  then have Fc: "?F \<le> ?c"
    unfolding fs upd using total by simp
  have off: "unat (false_off p n g ?t) = ?F" by (rule unat_offsets(2) [OF sc])
  have "false_off p n g ?t \<le> snd (counters s)"
    using Fc off by (simp add: word_le_nat_alt)
  then have cur: "unat (snd (counters s) - false_off p n g ?t) = ?c - ?F"
    using off by (simp add: unat_sub)
  then have idx: "unat (false_idx (tiles s' g)) = ?c - ?F" by (simp add: s')
  have ts: "true_slot p n s' = true_slot p n s"
    by (rule ext) (simp add: true_slot_def s' at)
  note ext_runs = runs_above_extend [OF above g none Fc]
  have loc: "\<forall>g'<?G. counted (at (tiles s' g')) \<longrightarrow> scanned p n g' (tiles s' g')"
  proof (intro allI impI)
    fix g'
    assume h: "g' < ?G" "counted (at (tiles s' g'))"
    show "scanned p n g' (tiles s' g')"
    proof (cases "g' = g")
      case True
      have "scanned p n g (tiles s' g) = scanned p n g ?t"
        by (rule scanned_cong) (simp_all add: s')
      then show ?thesis using sc True by simp
    next
      case False
      then have "tiles s' g' = tiles s g'" by (simp add: s')
      then show ?thesis using inv h by (simp add: cursors_inv_def)
    qed
  qed
  have c1: "fst (counters s') = fst (counters s)" and c2: "unat (snd (counters s')) = ?c - ?F"
    using cur by (simp_all add: s')
  have "cursors_inv p n s'"
    unfolding cursors_inv_def using loc ext_runs below by (simp add: ts fs idx c1 c2)
  then show ?thesis by (simp add: s'_def)
qed

lemma cursors_inv_step:
  assumes inv: "cursors_inv p n s" and g: "g < tile_count n" and n: "n < 2 ^ 32"
  shows "cursors_inv p n (step f n p g s)"
proof (cases "at (tiles s g)")
  case Load
  show ?thesis
    by (rule cursors_inv_quiet [OF inv, of _ g]) (simp_all add: step_Load [OF Load] Load)
next
  case Release_own
  show ?thesis
    by (rule cursors_inv_quiet [OF inv, of _ g]) (simp_all add: step_Release_own [OF Release_own] Release_own)
next
  case Count
  have "scanned p n g ((tiles s g)\<lparr>at := Reserve_true,
          shared := scan_flags p n g (tmp (tiles s g)) (shared (tiles s g))\<rparr>)"
    by (simp add: scanned_def count_phase)
  then show ?thesis
    by (intro cursors_inv_quiet [OF inv, of _ g]) (simp_all add: step_Count [OF Count] Count)
next
  case Reserve_true
  then show ?thesis using inv g n by (intro cursors_inv_reserve_true)
next
  case Reserve_false
  then show ?thesis using inv g n by (intro cursors_inv_reserve_false)
next
  case Acquire_true
  have sc: "scanned p n g (tiles s g)" using inv g Acquire_true by (simp add: cursors_inv_def)
  show ?thesis
  proof (cases "blocks s (unat (true_idx (tiles s g) div of_nat SIMD_w)) = unlocked (tiles s g)")
    case True
    show ?thesis
      by (rule cursors_inv_quiet [OF inv, of _ g])
         (simp_all add: step_Acquire_true(1) [OF Acquire_true True] Acquire_true sc scanned_cong)
  next
    case False
    show ?thesis
      by (rule cursors_inv_quiet [OF inv, of _ g])
         (simp_all add: step_Acquire_true(2) [OF Acquire_true False] Acquire_true sc scanned_cong)
  qed
next
  case Write_true
  have sc: "scanned p n g (tiles s g)" using inv g Write_true by (simp add: cursors_inv_def)
  show ?thesis
    by (rule cursors_inv_quiet [OF inv, of _ g])
       (simp_all add: step_Write_true [OF Write_true] Write_true sc scanned_cong)
next
  case Release_true
  have sc: "scanned p n g (tiles s g)" using inv g Release_true by (simp add: cursors_inv_def)
  show ?thesis
    by (rule cursors_inv_quiet [OF inv, of _ g])
       (simp_all add: step_Release_true [OF Release_true] Release_true sc scanned_cong)
next
  case Acquire_false
  have sc: "scanned p n g (tiles s g)" using inv g Acquire_false by (simp add: cursors_inv_def)
  show ?thesis
  proof (cases "blocks s (unat (false_idx (tiles s g) div of_nat SIMD_w)) = unlocked (tiles s g)")
    case True
    show ?thesis
      by (rule cursors_inv_quiet [OF inv, of _ g])
         (simp_all add: step_Acquire_false(1) [OF Acquire_false True] Acquire_false sc scanned_cong)
  next
    case False
    show ?thesis
      by (rule cursors_inv_quiet [OF inv, of _ g])
         (simp_all add: step_Acquire_false(2) [OF Acquire_false False] Acquire_false sc scanned_cong)
  qed
next
  case Write_false
  have sc: "scanned p n g (tiles s g)" using inv g Write_false by (simp add: cursors_inv_def)
  show ?thesis
    by (rule cursors_inv_quiet [OF inv, of _ g])
       (simp_all add: step_Write_false [OF Write_false] Write_false sc scanned_cong)
next
  case Release_false
  have sc: "scanned p n g (tiles s g)" using inv g Release_false by (simp add: cursors_inv_def)
  show ?thesis
    by (rule cursors_inv_quiet [OF inv, of _ g])
       (simp_all add: step_Release_false [OF Release_false] Release_false sc scanned_cong)
next
  case Done
  then show ?thesis using inv by (simp add: step_Done)
qed

lemma cursors_inv_init:
  "n < 2 ^ 32 \<Longrightarrow> cursors_inv p n (init junk n mem)"
  by (simp add: cursors_inv_def init_def true_slot_def false_slot_def runs_below_def runs_above_def
      unat_of_nat)

lemma cursors_inv_run:
  assumes "n < 2 ^ 32" "cursors_inv p n s"
  shows "cursors_inv p n (run f n p sched s)"
  using assms(2)
proof (induction sched arbitrary: s)
  case Nil
  then show ?case by (simp add: run_def)
next
  case (Cons g sched)
  have "run f n p (g # sched) s = run f n p sched (if g < tile_count n then step f n p g s else s)"
    by (simp add: run_def)
  moreover have "cursors_inv p n (if g < tile_count n then step f n p g s else s)"
    using Cons.prems by (auto intro: cursors_inv_step [OF _ _ assms(1)])
  ultimately show ?case using Cons.IH by simp
qed

lemma cursors_inv_reachable:
  "n < 2 ^ 32 \<Longrightarrow> cursors_inv p n (run f n p sched (init junk n mem))"
  by (rule cursors_inv_run [OF _ cursors_inv_init])

subsection \<open>partition: a tile running alone\<close>

lemma run_Cons: "g < tile_count n \<Longrightarrow> run f n p (g # sched) s = run f n p sched (step f n p g s)"
  by (simp add: run_def)

lemma run_Nil: "run f n p [] s = s"
  by (simp add: run_def)

lemma run_append: "run f n p (xs @ ys) s = run f n p ys (run f n p xs s)"
  by (simp add: run_def)

lemma writes_placed:
  assumes "\<And>lane. lane < 64 \<Longrightarrow> shared t p_true lane = of_nat (trues_before p n g (tmp t) lane)"
    and "\<And>lane. lane < 64 \<Longrightarrow> shared t p_false lane = of_nat (falses_before p n g (tmp t) lane)"
  shows "fold (write_true_lane f p n g t) [0..<SIMD_w] mem
           = fold (place_true f p n g (tmp t) (true_idx t)) [0..<64] mem"
    and "fold (write_false_lane f p n g t) [0..<SIMD_w] mem
           = fold (place_false f p n g (tmp t) (false_idx t)) [0..<64] mem"
proof -
  have "\<And>lane. lane \<in> set [0..<64] \<Longrightarrow>
      write_true_lane f p n g t lane = place_true f p n g (tmp t) (true_idx t) lane"
    using assms(1) by (intro ext) (simp add: write_true_lane_def place_true_def)
  then show "fold (write_true_lane f p n g t) [0..<SIMD_w] mem
           = fold (place_true f p n g (tmp t) (true_idx t)) [0..<64] mem"
    unfolding SIMD_w_64 by (intro fold_cong) simp_all
  have "\<And>lane. lane \<in> set [0..<64] \<Longrightarrow>
      write_false_lane f p n g t lane = place_false f p n g (tmp t) (false_idx t) lane"
    using assms(2) by (intro ext) (simp add: write_false_lane_def place_false_def)
  then show "fold (write_false_lane f p n g t) [0..<SIMD_w] mem
           = fold (place_false f p n g (tmp t) (false_idx t)) [0..<64] mem"
    unfolding SIMD_w_64 by (intro fold_cong) simp_all
qed

lemma upd_same_eq: "(h(x := a) = h(x := b)) = (a = b)"
  by (auto dest: fun_upd_eqD)

lemma kernel_eqI:
  "memory a = memory b \<Longrightarrow> blocks a = blocks b \<Longrightarrow> counters a = counters b
   \<Longrightarrow> tiles a = tiles b \<Longrightarrow> kernel.more a = kernel.more b \<Longrightarrow> a = b"
  by (rule kernel.equality)

lemma nine: "replicate 9 g = [g, g, g, g, g, g, g, g, g]"
  by (simp add: numeral_eq_Suc)

text \<open>
  A tile that runs its first nine phases in a row and finds both its locks free: it stands
  before its second write phase, holding the lock of the block \<open>fb\<close>.
\<close>

lemma tile_nine:
  fixes s :: "'a::zero kernel"
  assumes g: "g < tile_count n" and at: "at (tiles s g) = Load"
    and regs: "regs = (\<lambda>lane. if valid n g lane then memory s (f + (g * SIMD_w + lane)) else 0)"
    and ti: "ti = fst (counters s)"
    and fi: "fi = snd (counters s) - of_nat (falses_before p n g regs 64)"
    and tb: "tb = unat (ti div 64)" and fb: "fb = unat (fi div 64)"
    and free_t: "tb = g \<or> blocks s tb = 0"
    and free_f: "fb = g \<or> fb = tb \<or> blocks s fb = 0"
  shows "run f n p (replicate 9 g) s =
     s\<lparr>memory := fold (place_true f p n g regs ti) [0..<64] (memory s),
       blocks := (blocks s)(g := 0, tb := 0, fb := 1),
       counters := (ti + of_nat (trues_before p n g regs 64), fi),
       tiles := (tiles s)(g := (tiles s g)\<lparr>at := Write_false, tmp := regs,
          shared := scan_flags p n g regs (shared (tiles s g)),
          true_idx := ti, false_idx := fi, unlocked := 0\<rparr>)\<rparr>"
proof -
  let ?t = "tiles s g"
  let ?H = "scan_flags p n g regs (shared ?t)"
  let ?T = "trues_before p n g regs 64"
  let ?F = "falses_before p n g regs 64"
  define t3 where "t3 = ?t\<lparr>tmp := regs, shared := ?H\<rparr>"
  have sc3: "\<And>a. scanned p n g (t3\<lparr>at := a\<rparr>)"
    by (simp add: scanned_def t3_def count_phase)
  have off: "\<And>a. true_off p n g (t3\<lparr>at := a\<rparr>) = of_nat ?T"
    "\<And>a. false_off p n g (t3\<lparr>at := a\<rparr>) = of_nat ?F"
    using offsets_scanned [OF sc3] by (simp_all add: t3_def)
  have sixty_four: "(of_nat SIMD_w :: u32) = 64" by simp
  define s1 where "s1 = s\<lparr>tiles := (tiles s)(g := ?t\<lparr>at := Release_own, tmp := regs\<rparr>)\<rparr>"
  have e1: "step f n p g s = s1"
    by (simp add: step_Load [OF at] s1_def regs)
  define s2 where "s2 = s\<lparr>blocks := (blocks s)(g := 0), tiles := (tiles s)(g := ?t\<lparr>at := Count, tmp := regs\<rparr>)\<rparr>"
  have e2: "step f n p g s1 = s2"
    by (subst step_Release_own) (simp_all add: s1_def s2_def release_block_def upd_same_eq)
  define s3 where "s3 = s\<lparr>blocks := (blocks s)(g := 0), tiles := (tiles s)(g := t3\<lparr>at := Reserve_true\<rparr>)\<rparr>"
  have e3: "step f n p g s2 = s3"
    by (subst step_Count) (simp_all add: s2_def s3_def t3_def upd_same_eq)
  define s4 where "s4 = s\<lparr>blocks := (blocks s)(g := 0), counters := (ti + of_nat ?T, snd (counters s)),
      tiles := (tiles s)(g := t3\<lparr>at := Reserve_false, true_idx := ti\<rparr>)\<rparr>"
  have e4: "step f n p g s3 = s4"
    by (subst step_Reserve_true) (simp_all add: s3_def s4_def off ti upd_same_eq)
  define t5 where "t5 = t3\<lparr>true_idx := ti, false_idx := fi, unlocked := 0\<rparr>"
  define s5 where "s5 = s\<lparr>blocks := (blocks s)(g := 0), counters := (ti + of_nat ?T, fi),
      tiles := (tiles s)(g := t5\<lparr>at := Acquire_true\<rparr>)\<rparr>"
  have "false_off p n g (t3\<lparr>at := Reserve_false, true_idx := ti\<rparr>)
      = false_off p n g (t3\<lparr>at := Reserve_false\<rparr>)"
    by (simp add: false_off_def)
  then have off4: "false_off p n g (t3\<lparr>at := Reserve_false, true_idx := ti\<rparr>) = of_nat ?F"
    by (simp only: off(2))
  have e5: "step f n p g s4 = s5"
    by (subst step_Reserve_false) (simp_all add: s4_def s5_def t5_def off4 fi upd_same_eq)
  define s6 where "s6 = s\<lparr>blocks := (blocks s)(g := 0, tb := 1), counters := (ti + of_nat ?T, fi),
      tiles := (tiles s)(g := t5\<lparr>at := Write_true\<rparr>)\<rparr>"
  have e6: "step f n p g s5 = s6"
    using free_t
    by (subst step_Acquire_true(1)) (auto simp: s5_def s6_def t5_def tb upd_same_eq)
  have sh5: "\<And>lane a. lane < 64 \<Longrightarrow> shared (t5\<lparr>at := a\<rparr>) p_true lane = of_nat (trues_before p n g (tmp (t5\<lparr>at := a\<rparr>)) lane)"
    "\<And>lane a. lane < 64 \<Longrightarrow> shared (t5\<lparr>at := a\<rparr>) p_false lane = of_nat (falses_before p n g (tmp (t5\<lparr>at := a\<rparr>)) lane)"
    by (simp_all add: t5_def t3_def count_phase)
  let ?M1 = "fold (place_true f p n g regs ti) [0..<64] (memory s)"
  define s7 where "s7 = s\<lparr>memory := ?M1, blocks := (blocks s)(g := 0, tb := 1), counters := (ti + of_nat ?T, fi),
      tiles := (tiles s)(g := t5\<lparr>at := Release_true\<rparr>)\<rparr>"
  have w7: "fold (write_true_lane f p n g (t5\<lparr>at := Write_true\<rparr>)) [0..<64] (memory s) = ?M1"
    using writes_placed(1) [of "t5\<lparr>at := Write_true\<rparr>" p n g f "memory s", OF sh5]
    by (simp add: t5_def t3_def)
  have e7: "step f n p g s6 = s7"
    by (subst step_Write_true) (simp_all add: s6_def s7_def w7 upd_same_eq)
  define s8 where "s8 = s\<lparr>memory := ?M1, blocks := (blocks s)(g := 0, tb := 0), counters := (ti + of_nat ?T, fi),
      tiles := (tiles s)(g := t5\<lparr>at := Acquire_false\<rparr>)\<rparr>"
  have e8: "step f n p g s7 = s8"
    by (subst step_Release_true) (simp_all add: s7_def s8_def t5_def release_block_def tb upd_same_eq)
  define s9 where "s9 = s\<lparr>memory := ?M1, blocks := (blocks s)(g := 0, tb := 0, fb := 1), counters := (ti + of_nat ?T, fi),
      tiles := (tiles s)(g := t5\<lparr>at := Write_false\<rparr>)\<rparr>"
  have e9: "step f n p g s8 = s9"
    using free_f
    by (subst step_Acquire_false(1)) (auto simp: s8_def s9_def t5_def fb upd_same_eq)
  have "run f n p (replicate 9 g) s = s9"
    unfolding nine by (simp add: run_Cons [OF g] run_Nil e1 e2 e3 e4 e5 e6 e7 e8 e9)
  then show ?thesis by (simp add: s9_def t5_def t3_def upd_same_eq)
qed

text \<open>A tile that runs its eleven phases in a row and finds both its locks free.\<close>

lemma tile_alone:
  fixes s :: "'a::zero kernel"
  assumes g: "g < tile_count n" and at: "at (tiles s g) = Load"
    and regs: "regs = (\<lambda>lane. if valid n g lane then memory s (f + (g * SIMD_w + lane)) else 0)"
    and ti: "ti = fst (counters s)"
    and fi: "fi = snd (counters s) - of_nat (falses_before p n g regs 64)"
    and tb: "tb = unat (ti div 64)" and fb: "fb = unat (fi div 64)"
    and free_t: "tb = g \<or> blocks s tb = 0"
    and free_f: "fb = g \<or> fb = tb \<or> blocks s fb = 0"
  shows "run f n p (replicate 11 g) s =
     s\<lparr>memory := fold (place_false f p n g regs fi) [0..<64]
                     (fold (place_true f p n g regs ti) [0..<64] (memory s)),
       blocks := (blocks s)(g := 0, tb := 0, fb := 0),
       counters := (ti + of_nat (trues_before p n g regs 64), fi),
       tiles := (tiles s)(g := (tiles s g)\<lparr>at := Done, tmp := regs,
          shared := scan_flags p n g regs (shared (tiles s g)),
          true_idx := ti, false_idx := fi, unlocked := 0\<rparr>)\<rparr>"
proof -
  let ?M1 = "fold (place_true f p n g regs ti) [0..<64] (memory s)"
  let ?M2 = "fold (place_false f p n g regs fi) [0..<64] ?M1"
  let ?T = "trues_before p n g regs 64"
  define t9 where "t9 = (tiles s g)\<lparr>tmp := regs,
          shared := scan_flags p n g regs (shared (tiles s g)),
          true_idx := ti, false_idx := fi, unlocked := 0\<rparr>"
  define s9 where "s9 = s\<lparr>memory := ?M1, blocks := (blocks s)(g := 0, tb := 0, fb := 1),
      counters := (ti + of_nat ?T, fi), tiles := (tiles s)(g := t9\<lparr>at := Write_false\<rparr>)\<rparr>"
  have r9: "run f n p (replicate 9 g) s = s9"
    using tile_nine [OF assms] by (simp add: s9_def t9_def upd_same_eq)
  have sh9: "\<And>lane a. lane < 64 \<Longrightarrow> shared (t9\<lparr>at := a\<rparr>) p_true lane = of_nat (trues_before p n g (tmp (t9\<lparr>at := a\<rparr>)) lane)"
    "\<And>lane a. lane < 64 \<Longrightarrow> shared (t9\<lparr>at := a\<rparr>) p_false lane = of_nat (falses_before p n g (tmp (t9\<lparr>at := a\<rparr>)) lane)"
    by (simp_all add: t9_def count_phase)
  define s10 where "s10 = s\<lparr>memory := ?M2, blocks := (blocks s)(g := 0, tb := 0, fb := 1), counters := (ti + of_nat ?T, fi),
      tiles := (tiles s)(g := t9\<lparr>at := Release_false\<rparr>)\<rparr>"
  have w10: "fold (write_false_lane f p n g (t9\<lparr>at := Write_false\<rparr>)) [0..<64] ?M1 = ?M2"
    using writes_placed(2) [of "t9\<lparr>at := Write_false\<rparr>" p n g f ?M1, OF sh9]
    by (simp add: t9_def)
  have e10: "step f n p g s9 = s10"
    by (subst step_Write_false) (simp_all add: s9_def s10_def w10 upd_same_eq)
  define s11 where "s11 = s\<lparr>memory := ?M2, blocks := (blocks s)(g := 0, tb := 0, fb := 0), counters := (ti + of_nat ?T, fi),
      tiles := (tiles s)(g := t9\<lparr>at := Done\<rparr>)\<rparr>"
  have e11: "step f n p g s10 = s11"
    by (subst step_Release_false) (simp_all add: s10_def s11_def t9_def release_block_def fb upd_same_eq)
  have "replicate 11 g = replicate 9 g @ [g, g]"
    by (simp add: numeral_eq_Suc)
  then have "run f n p (replicate 11 g) s = s11"
    by (simp add: run_append r9 run_Cons [OF g] run_Nil e10 e11)
  then show ?thesis by (simp add: s11_def t9_def upd_same_eq)
qed

subsection \<open>partition: when every tile has reserved its runs\<close>

lemma reserved_Done: "finished n s \<Longrightarrow> \<forall>g<tile_count n. reserved (at (tiles s g))"
  by (simp add: finished_def list_all_iff)

text \<open>What the invariant says once every tile has drawn on both cursors.\<close>

lemma all_reserved:
  assumes inv: "cursors_inv p n s" and all: "\<forall>g<tile_count n. reserved (at (tiles s g))"
  shows "\<forall>g<tile_count n. unat (true_off p n g (tiles s g)) + unat (false_off p n g (tiles s g)) = valid_lanes n g"
    and "unat (fst (counters s)) = (\<Sum>g<tile_count n. unat (true_off p n g (tiles s g)))"
    and "n - unat (snd (counters s)) = (\<Sum>g<tile_count n. unat (false_off p n g (tiles s g)))"
    and "fst (counters s) = snd (counters s)"
    and "(\<Union>g<tile_count n. true_run p n g (tiles s g)) = {0..<unat (fst (counters s))}"
    and "(\<Union>g<tile_count n. false_run p n g (tiles s g)) = {unat (fst (counters s))..<n}"
    and "\<forall>g<tile_count n. \<forall>g'<tile_count n. g \<noteq> g' \<longrightarrow>
           true_run p n g (tiles s g) \<inter> true_run p n g' (tiles s g') = {}
         \<and> false_run p n g (tiles s g) \<inter> false_run p n g' (tiles s g') = {}"
    and "unat (fst (counters s)) \<le> n"
proof -
  let ?G = "tile_count n"
  let ?T = "\<lambda>g. trues_before p n g (tmp (tiles s g)) 64"
  let ?F = "\<lambda>g. falses_before p n g (tmp (tiles s g)) 64"
  let ?c1 = "unat (fst (counters s))"
  let ?c2 = "unat (snd (counters s))"
  have rt: "\<And>g. g < ?G \<Longrightarrow> reserved_true (at (tiles s g))" and rf: "\<And>g. g < ?G \<Longrightarrow> reserved (at (tiles s g))"
    using all reserved_counted(2) by auto
  have sc: "\<And>g. g < ?G \<Longrightarrow> scanned p n g (tiles s g)"
    using inv rt reserved_counted(1) by (auto simp: cursors_inv_def)
  have to: "\<And>g. g < ?G \<Longrightarrow> unat (true_off p n g (tiles s g)) = ?T g"
    and fo: "\<And>g. g < ?G \<Longrightarrow> unat (false_off p n g (tiles s g)) = ?F g"
    by (simp_all add: unat_offsets sc)
  have ts: "\<And>g. g < ?G \<Longrightarrow> true_slot p n s g = Some (unat (true_idx (tiles s g)), ?T g)"
    and fs: "\<And>g. g < ?G \<Longrightarrow> false_slot p n s g = Some (unat (false_idx (tiles s g)), ?F g)"
    using rt rf by (simp_all add: true_slot_def false_slot_def)
  have ts_out: "\<And>g. \<not> g < ?G \<Longrightarrow> true_slot p n s g = None"
    and fs_out: "\<And>g. \<not> g < ?G \<Longrightarrow> false_slot p n s g = None"
    by (simp_all add: true_slot_def false_slot_def)
  have below: "runs_below ?G ?c1 (true_slot p n s)" and above: "runs_above n ?G ?c2 (false_slot p n s)"
    using inv by (simp_all add: cursors_inv_def)
  show lanes: "\<forall>g<?G. unat (true_off p n g (tiles s g)) + unat (false_off p n g (tiles s g)) = valid_lanes n g"
    by (simp add: to fo trues_falses_lanes)
  have c1: "?c1 = (\<Sum>g<?G. ?T g)"
  proof -
    have "?c1 = (\<Sum>g<?G. slot_len (true_slot p n s g))" using below by (simp add: runs_below_def)
    also have "\<dots> = (\<Sum>g<?G. ?T g)" by (rule sum.cong) (simp_all add: ts)
    finally show ?thesis .
  qed
  have c2: "?c2 + (\<Sum>g<?G. ?F g) = n"
  proof -
    have "(\<Sum>g<?G. slot_len (false_slot p n s g)) = (\<Sum>g<?G. ?F g)"
      by (rule sum.cong) (simp_all add: fs)
    then show ?thesis using above by (simp add: runs_above_def)
  qed
  show "?c1 = (\<Sum>g<?G. unat (true_off p n g (tiles s g)))"
    unfolding c1 by (rule sum.cong) (simp_all add: to)
  have "(\<Sum>g<?G. unat (false_off p n g (tiles s g))) = (\<Sum>g<?G. ?F g)"
    by (rule sum.cong) (simp_all add: fo)
  then show "n - ?c2 = (\<Sum>g<?G. unat (false_off p n g (tiles s g)))"
    using c2 by simp
  have "(\<Sum>g<?G. ?T g) + (\<Sum>g<?G. ?F g) = (\<Sum>g<?G. valid_lanes n g)"
    unfolding sum.distrib [symmetric] by (rule sum.cong) (simp_all add: trues_falses_lanes)
  then have meet: "?c1 = ?c2" using c1 c2 valid_lanes_total [of n] by simp
  then show eq: "fst (counters s) = snd (counters s)" by (rule word_unat_eq_iff [THEN iffD2])
  show c1n: "?c1 \<le> n" using meet c2 by simp
  have tr: "\<And>g. g < ?G \<Longrightarrow> true_run p n g (tiles s g) = {unat (true_idx (tiles s g))..<unat (true_idx (tiles s g)) + ?T g}"
    and fr: "\<And>g. g < ?G \<Longrightarrow> false_run p n g (tiles s g) = {unat (false_idx (tiles s g))..<unat (false_idx (tiles s g)) + ?F g}"
    by (simp_all add: true_run_def false_run_def to fo)
  show "(\<Union>g<?G. true_run p n g (tiles s g)) = {0..<?c1}"
  proof (rule set_eqI)
    fix i
    show "(i \<in> (\<Union>g<?G. true_run p n g (tiles s g))) = (i \<in> {0..<?c1})"
    proof
      assume "i \<in> (\<Union>g<?G. true_run p n g (tiles s g))"
      then obtain g where g: "g < ?G" "i \<in> true_run p n g (tiles s g)" by auto
      then have "unat (true_idx (tiles s g)) + ?T g \<le> ?c1"
        using below ts [OF g(1)] unfolding runs_below_def by blast
      then show "i \<in> {0..<?c1}" using g tr by auto
    next
      assume "i \<in> {0..<?c1}"
      then obtain g b k where w: "true_slot p n s g = Some (b, k)" "b \<le> i" "i < b + k"
        using below unfolding runs_below_def by (meson atLeastLessThan_iff)
      then have g: "g < ?G" using ts_out by fastforce
      then have "i \<in> true_run p n g (tiles s g)" using w ts [OF g] tr [OF g] by simp
      then show "i \<in> (\<Union>g<?G. true_run p n g (tiles s g))" using g by auto
    qed
  qed
  show "(\<Union>g<?G. false_run p n g (tiles s g)) = {?c1..<n}"
  proof (rule set_eqI)
    fix i
    show "(i \<in> (\<Union>g<?G. false_run p n g (tiles s g))) = (i \<in> {?c1..<n})"
    proof
      assume "i \<in> (\<Union>g<?G. false_run p n g (tiles s g))"
      then obtain g where g: "g < ?G" "i \<in> false_run p n g (tiles s g)" by auto
      then have "?c2 \<le> unat (false_idx (tiles s g)) \<and> unat (false_idx (tiles s g)) + ?F g \<le> n"
        using above fs [OF g(1)] unfolding runs_above_def by blast
      then show "i \<in> {?c1..<n}" using g fr meet by auto
    next
      assume "i \<in> {?c1..<n}"
      then have "?c2 \<le> i \<and> i < n" using meet by simp
      then obtain g b k where w: "false_slot p n s g = Some (b, k)" "b \<le> i" "i < b + k"
        using above unfolding runs_above_def by meson
      then have g: "g < ?G" using fs_out by fastforce
      then have "i \<in> false_run p n g (tiles s g)" using w fs [OF g] fr [OF g] by simp
      then show "i \<in> (\<Union>g<?G. false_run p n g (tiles s g))" using g by auto
    qed
  qed
  show "\<forall>g<?G. \<forall>g'<?G. g \<noteq> g' \<longrightarrow>
           true_run p n g (tiles s g) \<inter> true_run p n g' (tiles s g') = {}
         \<and> false_run p n g (tiles s g) \<inter> false_run p n g' (tiles s g') = {}"
  proof (intro allI impI)
    fix g g'
    assume g: "g < ?G" and g': "g' < ?G" and ne: "g \<noteq> g'"
    have "unat (true_idx (tiles s g)) + ?T g \<le> unat (true_idx (tiles s g'))
        \<or> unat (true_idx (tiles s g')) + ?T g' \<le> unat (true_idx (tiles s g))"
      using below ts [OF g] ts [OF g'] ne unfolding runs_below_def by blast
    then have a: "true_run p n g (tiles s g) \<inter> true_run p n g' (tiles s g') = {}"
      unfolding tr [OF g] tr [OF g'] by auto
    have "unat (false_idx (tiles s g)) + ?F g \<le> unat (false_idx (tiles s g'))
        \<or> unat (false_idx (tiles s g')) + ?F g' \<le> unat (false_idx (tiles s g))"
      using above fs [OF g] fs [OF g'] ne unfolding runs_above_def by blast
    then have b: "false_run p n g (tiles s g) \<inter> false_run p n g' (tiles s g') = {}"
      unfolding fr [OF g] fr [OF g'] by auto
    show "true_run p n g (tiles s g) \<inter> true_run p n g' (tiles s g') = {}
         \<and> false_run p n g (tiles s g) \<inter> false_run p n g' (tiles s g') = {}"
      using a b by simp
  qed
qed

subsection \<open>partition: a finished run of one tile\<close>

lemma tile_count_8: "tile_count 8 = 1"
  by (simp add: tile_count_def)

lemma example_counts:
  "trues_before even 8 0 (\<lambda>lane. if valid 8 0 lane then array_of 0 [1, 2, 3, 4, 5, 6, 7, 8 :: nat] lane else 0) 64 = 4"
  "falses_before even 8 0 (\<lambda>lane. if valid 8 0 lane then array_of 0 [1, 2, 3, 4, 5, 6, 7, 8 :: nat] lane else 0) 64 = 4"
  by code_simp+

lemma example_run:
  defines "S \<equiv> run 0 8 even (replicate 11 0) (init blank 8 (array_of 0 [1, 2, 3, 4, 5, 6, 7, 8]))"
  shows "finished 8 S" and "counters S = (4, 4)"
proof -
  let ?mem = "array_of 0 [1, 2, 3, 4, 5, 6, 7, 8 :: nat]"
  let ?s = "init blank 8 ?mem"
  let ?regs = "\<lambda>lane. if valid 8 0 lane then ?mem lane else 0"
  have g: "0 < tile_count 8" by (simp add: tile_count_8)
  have at: "at (tiles ?s 0) = Load" by (simp add: init_def)
  have regs: "?regs = (\<lambda>lane. if valid 8 0 lane then memory ?s (0 + (0 * SIMD_w + lane)) else 0)"
    by (simp add: init_def cong: if_cong)
  have ti: "(0 :: u32) = fst (counters ?s)" by (simp add: init_def)
  have fi: "(4 :: u32) = snd (counters ?s) - of_nat (falses_before even 8 0 ?regs 64)"
    by (simp add: init_def example_counts)
  have tb: "(0 :: nat) = unat ((0 :: u32) div 64)" and fb: "(0 :: nat) = unat ((4 :: u32) div 64)"
    by simp_all
  note run = tile_alone [OF g at regs ti fi tb fb]
  have S: "S = ?s\<lparr>memory := fold (place_false 0 even 8 0 ?regs 4) [0..<64]
                     (fold (place_true 0 even 8 0 ?regs 0) [0..<64] (memory ?s)),
       blocks := (blocks ?s)(0 := 0, 0 := 0, 0 := 0),
       counters := (0 + of_nat (trues_before even 8 0 ?regs 64), 4),
       tiles := (tiles ?s)(0 := (tiles ?s 0)\<lparr>at := Done, tmp := ?regs,
          shared := scan_flags even 8 0 ?regs (shared (tiles ?s 0)),
          true_idx := 0, false_idx := 4, unlocked := 0\<rparr>)\<rparr>"
    unfolding S_def by (rule run) simp_all
  show "finished 8 S" by (simp add: S finished_def tile_count_8)
  show "counters S = (4, 4)" by (simp add: S example_counts)
qed

subsection \<open>partition: the claims on the cursors\<close>

text \<open>
  C8. In every run of the kernel of \<open>partition\<close> on a range of \<open>n\<close> cells (\<open>n\<close> an
  \<open>unsigned int\<close>), under every schedule of the tiles, once every tile has drawn on both
  cursors: the amount a tile added to the first cursor and the amount it took from the
  second add up to the number of its lanes that are in range; the first cursor has
  advanced by the total of the amounts added and the second has dropped from \<open>n\<close> by the
  total of the amounts taken, so every reservation was applied once; and the runs reserved
  by the tiles are pairwise disjoint and together cover the cells \<open>0 .. n - 1\<close> of the output.
\<close>

theorem reservations_tile_output:
  assumes "n < 2 ^ 32" and "s = run f n p sched (init junk n mem)"
    and "\<forall>g<tile_count n. reserved (at (tiles s g))"
  shows "(\<forall>g<tile_count n.
            unat (true_off p n g (tiles s g)) + unat (false_off p n g (tiles s g)) = valid_lanes n g)
       \<and> unat (fst (counters s)) = (\<Sum>g<tile_count n. unat (true_off p n g (tiles s g)))
       \<and> n - unat (snd (counters s)) = (\<Sum>g<tile_count n. unat (false_off p n g (tiles s g)))
       \<and> (\<Union>g<tile_count n. true_run p n g (tiles s g) \<union> false_run p n g (tiles s g)) = {0..<n}
       \<and> (\<forall>g<tile_count n. \<forall>g'<tile_count n. g \<noteq> g' \<longrightarrow>
             (true_run p n g (tiles s g) \<union> false_run p n g (tiles s g))
               \<inter> (true_run p n g' (tiles s g') \<union> false_run p n g' (tiles s g')) = {})
       \<and> (\<forall>g<tile_count n. true_run p n g (tiles s g) \<inter> false_run p n g (tiles s g) = {})"
proof -
  let ?G = "tile_count n"
  let ?k = "unat (fst (counters s))"
  have inv: "cursors_inv p n s"
    unfolding assms(2) by (rule cursors_inv_reachable [OF assms(1)])
  note facts = all_reserved [OF inv assms(3)]
  have tu: "(\<Union>g<?G. true_run p n g (tiles s g)) = {0..<?k}"
    and fu: "(\<Union>g<?G. false_run p n g (tiles s g)) = {?k..<n}"
    by (rule facts(5), rule facts(6))
  have t_in: "\<And>g. g < ?G \<Longrightarrow> true_run p n g (tiles s g) \<subseteq> {0..<?k}"
    using tu by blast
  have f_in: "\<And>g. g < ?G \<Longrightarrow> false_run p n g (tiles s g) \<subseteq> {?k..<n}"
    using fu by blast
  have cross: "\<And>g g'. g < ?G \<Longrightarrow> g' < ?G \<Longrightarrow> true_run p n g (tiles s g) \<inter> false_run p n g' (tiles s g') = {}"
  proof -
    fix g g'
    assume "g < ?G" "g' < ?G"
    then have "true_run p n g (tiles s g) \<subseteq> {0..<?k}" "false_run p n g' (tiles s g') \<subseteq> {?k..<n}"
      using t_in f_in by simp_all
    then show "true_run p n g (tiles s g) \<inter> false_run p n g' (tiles s g') = {}"
      by fastforce
  qed
  have "(\<Union>g<?G. true_run p n g (tiles s g) \<union> false_run p n g (tiles s g))
      = (\<Union>g<?G. true_run p n g (tiles s g)) \<union> (\<Union>g<?G. false_run p n g (tiles s g))"
    by blast
  also have "\<dots> = {0..<n}"
    unfolding tu fu using facts(8) by auto
  finally have cover: "(\<Union>g<?G. true_run p n g (tiles s g) \<union> false_run p n g (tiles s g)) = {0..<n}" .
  have apart: "\<forall>g<?G. \<forall>g'<?G. g \<noteq> g' \<longrightarrow>
             (true_run p n g (tiles s g) \<union> false_run p n g (tiles s g))
               \<inter> (true_run p n g' (tiles s g') \<union> false_run p n g' (tiles s g')) = {}"
  proof (intro allI impI)
    fix g g'
    assume g: "g < ?G" and g': "g' < ?G" and ne: "g \<noteq> g'"
    have "true_run p n g (tiles s g) \<inter> true_run p n g' (tiles s g') = {}"
      "false_run p n g (tiles s g) \<inter> false_run p n g' (tiles s g') = {}"
      using facts(7) g g' ne by simp_all
    moreover have "true_run p n g (tiles s g) \<inter> false_run p n g' (tiles s g') = {}"
      "true_run p n g' (tiles s g') \<inter> false_run p n g (tiles s g) = {}"
      using cross g g' by simp_all
    ultimately show "(true_run p n g (tiles s g) \<union> false_run p n g (tiles s g))
               \<inter> (true_run p n g' (tiles s g') \<union> false_run p n g' (tiles s g')) = {}"
      by blast
  qed
  show ?thesis
    using facts(1) facts(2) facts(3) cover apart cross by simp
qed

theorem reservations_tile_output_witness:
  "(8 :: nat) < 2 ^ 32
   \<and> finished 8 (run 0 8 even (replicate 11 0) (init blank 8 (array_of 0 [1, 2, 3, 4, 5, 6, 7, 8])))
   \<and> counters (run 0 8 even (replicate 11 0) (init blank 8 (array_of 0 [1, 2, 3, 4, 5, 6, 7, 8]))) = (4, 4)
   \<and> (\<Union>g<tile_count 8.
         true_run even 8 g (tiles (run 0 8 even (replicate 11 0) (init blank 8 (array_of 0 [1, 2, 3, 4, 5, 6, 7, 8]))) g)
         \<union> false_run even 8 g (tiles (run 0 8 even (replicate 11 0) (init blank 8 (array_of 0 [1, 2, 3, 4, 5, 6, 7, 8]))) g))
       = {0..<8}"
proof -
  let ?S = "run 0 8 even (replicate 11 0) (init blank 8 (array_of 0 [1, 2, 3, 4, 5, 6, 7, 8]))"
  have n: "(8 :: nat) < 2 ^ 32" by simp
  have fin: "finished 8 ?S" and cnt: "counters ?S = (4, 4)"
    by (rule example_run(1), rule example_run(2))
  have res: "\<forall>g<tile_count 8. reserved (at (tiles ?S g))"
    using fin by (rule reserved_Done)
  show ?thesis
    using reservations_tile_output [OF n refl res] n fin cnt by blast
qed

text \<open>
  C10. When \<open>partition\<close> has run to its end on a non-empty range of \<open>n = l - f\<close> cells
  (\<open>n\<close> an \<open>unsigned int\<close>), under every schedule of the tiles: the two cursors are equal,
  the iterator returned is \<open>f\<close> plus their common value \<open>k\<close>, the runs reserved on the
  second cursor fill exactly the cells \<open>k .. n - 1\<close> and those reserved on the first the cells
  \<open>0 .. k - 1\<close>.
\<close>

theorem cursors_meet_at_split:
  assumes "f < l" and "l - f < 2 ^ 32"
    and "s = run f (l - f) p sched (init junk (l - f) mem)" and "finished (l - f) s"
  shows "fst (counters s) = snd (counters s)
       \<and> partition sched junk f l p mem = Some (f + unat (fst (counters s)), memory s)
       \<and> (\<Union>g<tile_count (l - f). false_run p (l - f) g (tiles s g)) = {unat (fst (counters s))..<l - f}
       \<and> (\<Union>g<tile_count (l - f). true_run p (l - f) g (tiles s g)) = {0..<unat (fst (counters s))}"
proof -
  have inv: "cursors_inv p (l - f) s"
    unfolding assms(3) by (rule cursors_inv_reachable [OF assms(2)])
  note facts = all_reserved [OF inv reserved_Done [OF assms(4)]]
  have "partition sched junk f l p mem = Some (f + unat (fst (counters s)), memory s)"
    using assms(1,4) by (simp add: partition_def Let_def assms(3) [symmetric])
  then show ?thesis
    using facts(4) facts(5) facts(6) by simp
qed

theorem cursors_meet_at_split_witness:
  "(0 :: nat) < 8 \<and> (8 :: nat) - 0 < 2 ^ 32
   \<and> finished (8 - 0) (run 0 (8 - 0) even (replicate 11 0) (init blank (8 - 0) (array_of 0 [1, 2, 3, 4, 5, 6, 7, 8])))
   \<and> fst (counters (run 0 (8 - 0) even (replicate 11 0) (init blank (8 - 0) (array_of 0 [1, 2, 3, 4, 5, 6, 7, 8]))))
       = snd (counters (run 0 (8 - 0) even (replicate 11 0) (init blank (8 - 0) (array_of 0 [1, 2, 3, 4, 5, 6, 7, 8]))))
   \<and> fst (the (partition (replicate 11 0) blank 0 8 even (array_of 0 [1, 2, 3, 4, 5, 6, 7, 8]))) = 4"
proof -
  let ?S = "run 0 (8 - 0) even (replicate 11 0) (init blank (8 - 0) (array_of 0 [1, 2, 3, 4, 5, 6, 7, 8]))"
  have fl: "(0 :: nat) < 8" and n: "(8 :: nat) - 0 < 2 ^ 32" by simp_all
  have fin: "finished (8 - 0) ?S" and cnt: "counters ?S = (4, 4)"
    using example_run by simp_all
  have "fst (the (partition (replicate 11 0) blank 0 8 even (array_of 0 [1, 2, 3, 4, 5, 6, 7, 8]))) = 4"
    using cursors_meet_at_split [OF fl n refl fin] cnt by simp
  then show ?thesis
    using cursors_meet_at_split [OF fl n refl fin] fl n fin by blast
qed

subsection \<open>partition: a run that loses an element\<close>

text \<open>A tile that runs its first ten phases in a row: its second write phase is done.\<close>

lemma tile_ten:
  fixes s :: "'a::zero kernel"
  assumes g: "g < tile_count n" and at: "at (tiles s g) = Load"
    and regs: "regs = (\<lambda>lane. if valid n g lane then memory s (f + (g * SIMD_w + lane)) else 0)"
    and ti: "ti = fst (counters s)"
    and fi: "fi = snd (counters s) - of_nat (falses_before p n g regs 64)"
    and tb: "tb = unat (ti div 64)" and fb: "fb = unat (fi div 64)"
    and free_t: "tb = g \<or> blocks s tb = 0"
    and free_f: "fb = g \<or> fb = tb \<or> blocks s fb = 0"
  shows "memory (run f n p (replicate 10 g) s) =
           fold (place_false f p n g regs fi) [0..<64]
             (fold (place_true f p n g regs ti) [0..<64] (memory s))"
proof -
  let ?M1 = "fold (place_true f p n g regs ti) [0..<64] (memory s)"
  define t9 where "t9 = (tiles s g)\<lparr>tmp := regs,
          shared := scan_flags p n g regs (shared (tiles s g)),
          true_idx := ti, false_idx := fi, unlocked := 0\<rparr>"
  define s9 where "s9 = s\<lparr>memory := ?M1, blocks := (blocks s)(g := 0, tb := 0, fb := 1),
      counters := (ti + of_nat (trues_before p n g regs 64), fi),
      tiles := (tiles s)(g := t9\<lparr>at := Write_false\<rparr>)\<rparr>"
  have r9: "run f n p (replicate 9 g) s = s9"
    using tile_nine [OF assms] by (simp add: s9_def t9_def upd_same_eq)
  have sh9: "\<And>lane. lane < 64 \<Longrightarrow> shared (t9\<lparr>at := Write_false\<rparr>) p_true lane
        = of_nat (trues_before p n g (tmp (t9\<lparr>at := Write_false\<rparr>)) lane)"
    "\<And>lane. lane < 64 \<Longrightarrow> shared (t9\<lparr>at := Write_false\<rparr>) p_false lane
        = of_nat (falses_before p n g (tmp (t9\<lparr>at := Write_false\<rparr>)) lane)"
    by (simp_all add: t9_def count_phase)
  have w10: "fold (write_false_lane f p n g (t9\<lparr>at := Write_false\<rparr>)) [0..<64] ?M1
      = fold (place_false f p n g regs fi) [0..<64] ?M1"
    using writes_placed(2) [of "t9\<lparr>at := Write_false\<rparr>" p n g f ?M1, OF sh9]
    by (simp add: t9_def)
  have "memory (step f n p g s9) = fold (place_false f p n g regs fi) [0..<64] ?M1"
    by (subst step_Write_false) (simp_all add: s9_def w10)
  moreover have "replicate 10 g = replicate 9 g @ [g]"
    by (simp add: numeral_eq_Suc)
  ultimately show ?thesis
    by (simp add: run_append r9 run_Cons [OF g] run_Nil)
qed

lemma tile_count_65: "tile_count 65 = 2"
  by (simp add: tile_count_def)

text \<open>
  The failing run: the memory holds \<open>i\<close> in cell \<open>i\<close>, the range is its first 65 cells, no
  element satisfies the predicate \<open>100 < x\<close>, and tile 0 runs all its phases before tile 1
  runs its first.
\<close>

lemma first_tile_alone:
  "run 0 65 ((<) 100) (replicate 11 0) (init blank 65 id) =
     (init blank 65 id)\<lparr>memory := fold (place_false 0 ((<) 100) 65 0 (\<lambda>lane. if valid 65 0 lane then id lane else 0) 1) [0..<64]
                     (fold (place_true 0 ((<) 100) 65 0 (\<lambda>lane. if valid 65 0 lane then id lane else 0) 0) [0..<64] id),
       blocks := (blocks (init blank 65 id))(0 := 0),
       counters := (0, 1),
       tiles := (tiles (init blank 65 id))(0 := (tiles (init blank 65 id) 0)\<lparr>at := Done,
          tmp := (\<lambda>lane. if valid 65 0 lane then id lane else 0),
          shared := scan_flags ((<) 100) 65 0 (\<lambda>lane. if valid 65 0 lane then id lane else 0)
                      (shared (tiles (init blank 65 id) 0)),
          true_idx := 0, false_idx := 1, unlocked := 0\<rparr>)\<rparr>"
proof -
  let ?s = "init blank 65 (id :: nat \<Rightarrow> nat)"
  let ?regs = "\<lambda>lane. if valid 65 0 lane then id lane else (0 :: nat)"
  have cnt: "falses_before ((<) 100) 65 0 ?regs 64 = 64" "trues_before ((<) 100) 65 0 ?regs 64 = 0"
    by code_simp+
  have g: "0 < tile_count 65" by (simp add: tile_count_65)
  have at: "at (tiles ?s 0) = Load" by (simp add: init_def)
  have regs: "?regs = (\<lambda>lane. if valid 65 0 lane then memory ?s (0 + (0 * SIMD_w + lane)) else 0)"
    by (simp add: init_def cong: if_cong)
  have ti: "(0 :: u32) = fst (counters ?s)" by (simp add: init_def)
  have fi: "(1 :: u32) = snd (counters ?s) - of_nat (falses_before ((<) 100) 65 0 ?regs 64)"
    by (simp add: init_def cnt)
  have tb: "(0 :: nat) = unat ((0 :: u32) div 64)" and fb: "(0 :: nat) = unat ((1 :: u32) div 64)"
    by simp_all
  have mem: "memory ?s = id" by (simp add: init_def)
  show ?thesis
    by (subst tile_alone [OF g at regs ti fi tb fb]) (simp_all add: cnt mem)
qed


lemma both_tiles_alone:
  defines "S \<equiv> run 0 65 ((<) 100) (replicate 11 0 @ replicate 11 1) (init blank 65 id)"
  shows "finished 65 S" and "fst (counters S) = 0" and "cells (memory S) 0 65 = 63 # [0..<64]"
proof -
  let ?p = "(<) (100 :: nat)"
  let ?s = "init blank 65 (id :: nat \<Rightarrow> nat)"
  let ?regs0 = "\<lambda>lane. if valid 65 0 lane then id lane else (0 :: nat)"
  let ?M0 = "fold (place_false 0 ?p 65 0 ?regs0 1) [0..<64] (fold (place_true 0 ?p 65 0 ?regs0 0) [0..<64] id)"
  let ?regs1 = "\<lambda>lane. if lane = 0 then 63 else (0 :: nat)"
  let ?M1 = "fold (place_false 0 ?p 65 1 ?regs1 0) [0..<64] (fold (place_true 0 ?p 65 1 ?regs1 0) [0..<64] ?M0)"
  define S1 where "S1 = run 0 65 ?p (replicate 11 0) ?s"
  have mem1: "memory S1 = ?M0" and cnt1: "counters S1 = (0, 1)" and blk1: "blocks S1 0 = 0"
    and t10: "at (tiles S1 0) = Done" and t11: "at (tiles S1 1) = Load"
    unfolding S1_def first_tile_alone by (simp_all add: init_def)
  have cell: "?M0 64 = 63" by code_simp
  have cnt: "falses_before ?p 65 1 ?regs1 64 = 1" "trues_before ?p 65 1 ?regs1 64 = 0"
    by code_simp+
  have g: "1 < tile_count 65" by (simp add: tile_count_65)
  have regs: "?regs1 = (\<lambda>lane. if valid 65 1 lane then memory S1 (0 + (1 * SIMD_w + lane)) else 0)"
  proof (rule ext)
    fix lane
    show "(if lane = 0 then 63 else 0) = (if valid 65 1 lane then memory S1 (0 + (1 * SIMD_w + lane)) else 0)"
      using cell by (cases "lane = 0") (simp_all add: valid_def mem1)
  qed
  have ti: "(0 :: u32) = fst (counters S1)" by (simp add: cnt1)
  have fi: "(0 :: u32) = snd (counters S1) - of_nat (falses_before ?p 65 1 ?regs1 64)"
    unfolding cnt1 cnt by simp
  have tb: "(0 :: nat) = unat ((0 :: u32) div 64)" by simp
  have free_t: "0 = (1 :: nat) \<or> blocks S1 0 = 0" using blk1 by simp
  have free_f: "0 = (1 :: nat) \<or> (0 :: nat) = 0 \<or> blocks S1 0 = 0" by simp
  have S: "S = run 0 65 ?p (replicate 11 1) S1"
    by (simp add: S_def S1_def run_append)
  note run2 = tile_alone [OF g t11 regs ti fi tb tb free_t free_f]
  show "finished 65 S"
    unfolding S run2 using t10 by (simp add: finished_def tile_count_65 numeral_2_eq_2)
  show "fst (counters S) = 0"
    unfolding S run2 cnt by simp
  have "memory S = ?M1"
    unfolding S run2 by (simp add: mem1)
  moreover have "cells ?M1 0 65 = 63 # [0..<64]" by code_simp
  ultimately show "cells (memory S) 0 65 = 63 # [0..<64]" by simp
qed

text \<open>
  C1, at an input where the code departs from it. The range is the 65 cells
  \<open>0, 1, ..., 64\<close>, no element satisfies the predicate, and tile 0 runs to its end before
  tile 1 starts. \<open>partition\<close> returns split index 0 and leaves \<open>63, 0, 1, ..., 63\<close> in the
  range: the element 64 is gone and 63 stands twice, so the result is no permutation of the
  input. Tile 0 reserves the cells 1 to 64 for its 64 elements and locks block 0, in which
  that run starts; cell 64 lies in block 1, and tile 1 has not read it yet.
\<close>

theorem partition_loses_element:
  "map_option fst (partition (replicate 11 0 @ replicate 11 1) blank 0 65 ((<) 100) id) = Some 0
   \<and> cells (snd (the (partition (replicate 11 0 @ replicate 11 1) blank 0 65 ((<) 100) id))) 0 65
       = 63 # [0..<64]
   \<and> cells id 0 65 = [0..<65]"
proof -
  let ?S = "run 0 65 ((<) 100) (replicate 11 0 @ replicate 11 1) (init blank 65 id)"
  have "partition (replicate 11 0 @ replicate 11 1) blank 0 65 ((<) 100) id
      = Some (0 + unat (fst (counters ?S)), memory ?S)"
    using both_tiles_alone(1) by (simp add: partition_def Let_def)
  then show ?thesis
    using both_tiles_alone(2,3) by (simp add: cells_def)
qed

text \<open>
  C9, at the same input and schedule. After nine phases tile 0 stands before its second
  write phase. It holds the lock of block 0, the block in which its false run starts.
  Tile 1 has not run a phase: it has neither read its chunk nor released block 1, whose
  lock entry still holds 1. The tenth phase of tile 0 nevertheless overwrites cell 64, the
  first cell of block 1, with 63.
\<close>

theorem write_into_unread_block:
  "at (tiles (run 0 65 ((<) 100) (replicate 9 0) (init blank 65 id)) 0) = Write_false
   \<and> unat (false_idx (tiles (run 0 65 ((<) 100) (replicate 9 0) (init blank 65 id)) 0) div 64) = 0
   \<and> at (tiles (run 0 65 ((<) 100) (replicate 9 0) (init blank 65 id)) 1) = Load
   \<and> blocks (run 0 65 ((<) 100) (replicate 9 0) (init blank 65 id)) 1 = 1
   \<and> memory (run 0 65 ((<) 100) (replicate 9 0) (init blank 65 id)) 64 = 64
   \<and> memory (run 0 65 ((<) 100) (replicate 10 0) (init blank 65 id)) 64 = 63"
proof -
  let ?p = "(<) (100 :: nat)"
  let ?s = "init blank 65 (id :: nat \<Rightarrow> nat)"
  let ?regs = "\<lambda>lane. if valid 65 0 lane then id lane else (0 :: nat)"
  have cnt: "falses_before ?p 65 0 ?regs 64 = 64" "trues_before ?p 65 0 ?regs 64 = 0"
    by code_simp+
  have g: "0 < tile_count 65" by (simp add: tile_count_65)
  have at: "at (tiles ?s 0) = Load" by (simp add: init_def)
  have regs: "?regs = (\<lambda>lane. if valid 65 0 lane then memory ?s (0 + (0 * SIMD_w + lane)) else 0)"
    by (simp add: init_def cong: if_cong)
  have ti: "(0 :: u32) = fst (counters ?s)" by (simp add: init_def)
  have fi: "(1 :: u32) = snd (counters ?s) - of_nat (falses_before ?p 65 0 ?regs 64)"
    by (simp add: init_def cnt)
  have tb: "(0 :: nat) = unat ((0 :: u32) div 64)" and fb: "(0 :: nat) = unat ((1 :: u32) div 64)"
    by simp_all
  have free_t: "(0 :: nat) = 0 \<or> blocks ?s 0 = 0" and free_f: "(0 :: nat) = 0 \<or> (0 :: nat) = 0 \<or> blocks ?s 0 = 0"
    by simp_all
  note nine = tile_nine [OF g at regs ti fi tb fb free_t free_f]
  note ten = tile_ten [OF g at regs ti fi tb fb free_t free_f]
  have mem: "memory ?s = id" by (simp add: init_def)
  have before: "fold (place_true 0 ?p 65 0 ?regs 0) [0..<64] id 64 = 64" by code_simp
  have after: "fold (place_false 0 ?p 65 0 ?regs 1) [0..<64] (fold (place_true 0 ?p 65 0 ?regs 0) [0..<64] id) 64 = 63"
    by code_simp
  have a: "at (tiles (run 0 65 ?p (replicate 9 0) ?s) 0) = Write_false"
    and b: "unat (false_idx (tiles (run 0 65 ?p (replicate 9 0) ?s) 0) div 64) = 0"
    and c: "at (tiles (run 0 65 ?p (replicate 9 0) ?s) 1) = Load"
    and d: "blocks (run 0 65 ?p (replicate 9 0) ?s) 1 = 1"
    unfolding nine by (simp_all add: init_def tile_count_65)
  have e: "memory (run 0 65 ?p (replicate 9 0) ?s) 64 = 64"
    unfolding nine by (simp add: mem before)
  have f: "memory (run 0 65 ?p (replicate 10 0) ?s) 64 = 63"
    unfolding ten by (simp add: mem after)
  show ?thesis using a b c d e f by simp
qed

subsection \<open>The spin loop of acquire\_block\<close>

text \<open>
  The spin loop of \<open>acquire_block\<close> hands the same local \<open>unlocked\<close> to every attempt. A
  failed attempt leaves the value found, 1, in it, so the next attempt compares the entry
  with 1: a tile that finds a block locked passes at its second attempt while the entry
  still holds 1.
\<close>

lemma spin_passes_held_lock:
  assumes "t = tiles s g" "at t = Acquire_true" "unlocked t = 0"
    and "blocks s (unat (true_idx t div of_nat SIMD_w)) = 1"
  shows "at (tiles (step f n p g (step f n p g s)) g) = Write_true"
    and "blocks (step f n p g (step f n p g s)) (unat (true_idx t div of_nat SIMD_w)) = 1"
proof -
  let ?b = "unat (true_idx (tiles s g) div of_nat SIMD_w)"
  have at: "at (tiles s g) = Acquire_true" and ne: "blocks s ?b \<noteq> unlocked (tiles s g)"
    using assms by simp_all
  define s1 where "s1 = step f n p g s"
  have s1: "s1 = s\<lparr>tiles := (tiles s)(g := (tiles s g)\<lparr>at := Acquire_true, unlocked := blocks s ?b\<rparr>)\<rparr>"
    unfolding s1_def by (rule step_Acquire_true(2) [OF at ne])
  have at1: "at (tiles s1 g) = Acquire_true"
    and eq1: "blocks s1 (unat (true_idx (tiles s1 g) div of_nat SIMD_w)) = unlocked (tiles s1 g)"
    by (simp_all add: s1)
  have s2: "step f n p g s1 = s1\<lparr>blocks := (blocks s1)(unat (true_idx (tiles s1 g) div of_nat SIMD_w) := 1),
           tiles := (tiles s1)(g := (tiles s1 g)\<lparr>at := Write_true\<rparr>)\<rparr>"
    by (rule step_Acquire_true(1) [OF at1 eq1])
  show "at (tiles (step f n p g (step f n p g s)) g) = Write_true"
    unfolding s1_def [symmetric] s2 by simp
  show "blocks (step f n p g (step f n p g s)) (unat (true_idx t div of_nat SIMD_w)) = 1"
    unfolding s1_def [symmetric] s2 by (simp add: s1 assms(1))
qed

end
